theory Spec2Isabelle
  imports Main
begin

section \<open>Python strings\<close>

text \<open>
  A Python \<^verbatim>\<open>str\<close> is a sequence of Unicode code points, so a character is its code
  point (a natural number) and a string is a list of them. \<open>lit\<close> reads an ASCII literal
  of the source.
\<close>

type_synonym codepoint = nat
type_synonym str = "codepoint list"

definition lit :: "string \<Rightarrow> str" where
  "lit s = map of_char s"

text \<open>
  \<^verbatim>\<open>str.isspace\<close> on one character: the code points Python's \<^verbatim>\<open>str.strip()\<close> removes
  (bidirectional classes WS, B, S and category Zs).
\<close>

definition isspace :: "codepoint \<Rightarrow> bool" where
  "isspace c =
     ((9 \<le> c \<and> c \<le> 13) \<or> (28 \<le> c \<and> c \<le> 32) \<or> c = 133 \<or> c = 160 \<or> c = 5760 \<or>
      (8192 \<le> c \<and> c \<le> 8202) \<or> c = 8232 \<or> c = 8233 \<or> c = 8239 \<or> c = 8287 \<or>
      c = 12288)"

text \<open>\<^verbatim>\<open>s.strip()\<close>: leading and trailing whitespace removed.\<close>

definition strip :: "str \<Rightarrow> str" where
  "strip s = rev (dropWhile isspace (rev (dropWhile isspace s)))"

text \<open>
  \<^verbatim>\<open>s.split(sep)\<close> for a one-character separator: always at least one field, empty
  fields kept.
\<close>

fun split :: "codepoint \<Rightarrow> str \<Rightarrow> str list" where
  "split sep [] = [[]]"
| "split sep (c # cs) =
     (if c = sep then [] # split sep cs
      else (c # hd (split sep cs)) # tl (split sep cs))"

section \<open>The fragment of Python's \<^verbatim>\<open>re\<close> the audit uses\<close>

text \<open>
  The two patterns of the source are sequences of one-character matchers, some of them
  under an unbounded repeat (\<^verbatim>\<open>.*\<close> is \<^verbatim>\<open>MAX_REPEAT 0 MAXREPEAT ANY\<close>,
  \<^verbatim>\<open>[...]{20,}\<close> is \<^verbatim>\<open>MAX_REPEAT 20 MAXREPEAT IN\<close>). The parse tree keeps the names of
  Python's \<^verbatim>\<open>sre_parse\<close>.
\<close>

datatype set_item = Char codepoint | Range codepoint codepoint

datatype atom = Literal codepoint | Any | In "set_item list" | Not_In "set_item list"

datatype node = One atom | Max_Repeat nat atom

type_synonym pattern = "node list"

text \<open>
  Case folding under \<^verbatim>\<open>re.IGNORECASE\<close> for an ASCII pattern character (every pattern
  character of the source is ASCII). Besides the other case of an ASCII letter, Python's
  Unicode matching lets \<^verbatim>\<open>i\<close> match U+0130 and U+0131, \<^verbatim>\<open>s\<close> match U+017F and
  \<^verbatim>\<open>k\<close> match U+212A.
\<close>

definition ascii_lower :: "codepoint \<Rightarrow> codepoint" where
  "ascii_lower c = (if 65 \<le> c \<and> c \<le> 90 then c + 32 else c)"

definition case_extras :: "codepoint \<Rightarrow> codepoint list" where
  "case_extras lo =
     (if lo = 105 then [304, 305] else if lo = 115 then [383] else if lo = 107 then [8490]
      else [])"

definition char_matches :: "bool \<Rightarrow> codepoint \<Rightarrow> codepoint \<Rightarrow> bool" where
  "char_matches ignorecase p c =
     (if ignorecase
      then ascii_lower c = ascii_lower p \<or> List.member (case_extras (ascii_lower p)) c
      else c = p)"

fun item_matches :: "bool \<Rightarrow> set_item \<Rightarrow> codepoint \<Rightarrow> bool" where
  "item_matches ignorecase (Char p) c = char_matches ignorecase p c"
| "item_matches ignorecase (Range lo hi) c =
     (if ignorecase then list_ex (\<lambda>p. char_matches True p c) [lo ..< Suc hi]
      else lo \<le> c \<and> c \<le> hi)"

text \<open>\<^verbatim>\<open>.\<close> matches every character but the newline (no \<^verbatim>\<open>re.DOTALL\<close> in the source).\<close>

fun atom_matches :: "bool \<Rightarrow> atom \<Rightarrow> codepoint \<Rightarrow> bool" where
  "atom_matches ignorecase (Literal p) c = char_matches ignorecase p c"
| "atom_matches ignorecase Any c = (c \<noteq> 10)"
| "atom_matches ignorecase (In items) c = list_ex (\<lambda>i. item_matches ignorecase i c) items"
| "atom_matches ignorecase (Not_In items) c =
     (\<not> list_ex (\<lambda>i. item_matches ignorecase i c) items)"

text \<open>
  \<open>match_here\<close>: the pattern matches a prefix of the subject (\<^verbatim>\<open>re.match\<close>). A repeat
  either stops (once its minimum is reached) or takes one more character; the search
  tries both, as the backtracking engine does.
\<close>

fun match_here :: "bool \<Rightarrow> pattern \<Rightarrow> str \<Rightarrow> bool" where
  "match_here ignorecase [] s = True"
| "match_here ignorecase (One a # p) [] = False"
| "match_here ignorecase (One a # p) (c # cs) =
     (atom_matches ignorecase a c \<and> match_here ignorecase p cs)"
| "match_here ignorecase (Max_Repeat n a # p) [] = (n = 0 \<and> match_here ignorecase p [])"
| "match_here ignorecase (Max_Repeat n a # p) (c # cs) =
     ((n = 0 \<and> match_here ignorecase p (c # cs)) \<or>
      (atom_matches ignorecase a c \<and> match_here ignorecase (Max_Repeat (n - 1) a # p) cs))"

text \<open>\<^verbatim>\<open>re.search(pattern, s) is not None\<close>: a match starting at some position.\<close>

fun re_search :: "bool \<Rightarrow> pattern \<Rightarrow> str \<Rightarrow> bool" where
  "re_search ignorecase p [] = match_here ignorecase p []"
| "re_search ignorecase p (c # cs) =
     (match_here ignorecase p (c # cs) \<or> re_search ignorecase p cs)"

definition literals :: "str \<Rightarrow> pattern" where
  "literals w = map (\<lambda>c. One (Literal c)) w"

text \<open>\<^verbatim>\<open>r'sk-[a-zA-Z0-9]{20,}'\<close>\<close>

definition api_key_pattern :: pattern where
  "api_key_pattern =
     literals (lit ''sk-'') @ [Max_Repeat 20 (In [Range 97 122, Range 65 90, Range 48 57])]"

text \<open>\<^verbatim>\<open>r'password.*=.*[\'"][^\'"]{8,}[\'"]'\<close>, searched with \<^verbatim>\<open>re.IGNORECASE\<close>\<close>

definition password_pattern :: pattern where
  "password_pattern =
     literals (lit ''password'') @
     [Max_Repeat 0 Any, One (Literal 61), Max_Repeat 0 Any, One (In [Char 39, Char 34]),
      Max_Repeat 8 (Not_In [Char 39, Char 34]), One (In [Char 39, Char 34])]"


section \<open>The audit\<close>

text \<open>
  Both handlers of the program are \<^verbatim>\<open>except Exception\<close>. What a call raises is
  therefore either an instance of \<^verbatim>\<open>Exception\<close>, kept with its text \<^verbatim>\<open>str(e)\<close>
  (\<^verbatim>\<open>OSError\<close>, \<^verbatim>\<open>UnicodeDecodeError\<close>, \<^verbatim>\<open>UnicodeEncodeError\<close>, ...), or one of the
  exceptions that are not, \<^verbatim>\<open>KeyboardInterrupt\<close> and \<^verbatim>\<open>SystemExit\<close>, which neither
  handler catches.
\<close>

datatype py_exception = Exception (message: str) | KeyboardInterrupt | SystemExit

fun isinstance_Exception :: "py_exception \<Rightarrow> bool" where
  "isinstance_Exception (Exception m) = True"
| "isinstance_Exception KeyboardInterrupt = False"
| "isinstance_Exception SystemExit = False"

text \<open>
  The collaborator is \<^verbatim>\<open>subprocess.run(argv, capture_output=True, text=True)\<close>: for an
  argument vector it either raises (the program cannot be started, its output is not
  text in the locale's encoding, the user interrupts it) or returns a completed process.
  \<^verbatim>\<open>check=True\<close> is not passed, so a non-zero exit status is a completed process, not
  an exception. The index does not change during a run, so the reply is a function of
  the argument vector.
\<close>

record completed_process =
  returncode :: int
  stdout :: str
  stderr :: str

type_synonym subprocess = "str list \<Rightarrow> py_exception + completed_process"

text \<open>
  What a run does to the outside: the lines it has written to standard output and the
  commands it has started, in order.
\<close>

record world =
  console :: "str list"
  commands :: "str list list"

text \<open>
  Standard output is the second collaborator. Writing a line may raise (the line cannot
  be encoded for the console, the stream is closed, the user interrupts): for the lines
  written so far and the next line, the stream says which exception the write raises,
  or \<open>None\<close> when the line is written. \<^verbatim>\<open>print\<close> raises what the write raises, and
  then nothing of the line is on the console.
\<close>

type_synonym text_stream = "str list \<Rightarrow> str \<Rightarrow> py_exception option"

definition print :: "text_stream \<Rightarrow> str \<Rightarrow> world \<Rightarrow> (py_exception + unit) \<times> world" where
  "print out line w =
     (case out (console w) line of
        Some e \<Rightarrow> (Inl e, w)
      | None \<Rightarrow> (Inr (), w\<lparr>console := console w @ [line]\<rparr>))"

definition subprocess_run ::
  "subprocess \<Rightarrow> str list \<Rightarrow> world \<Rightarrow> (py_exception + completed_process) \<times> world" where
  "subprocess_run run argv w = (run argv, w\<lparr>commands := commands w @ [argv]\<rparr>)"

text \<open>\<^verbatim>\<open>['git', 'diff', '--cached', '--name-only']\<close> and \<^verbatim>\<open>['git', 'show', f':{file_path}']\<close>\<close>

definition git_diff_cached :: "str list" where
  "git_diff_cached = [lit ''git'', lit ''diff'', lit ''--cached'', lit ''--name-only'']"

definition git_show :: "str \<Rightarrow> str list" where
  "git_show file_path = [lit ''git'', lit ''show'', lit '':'' @ file_path]"

text \<open>
  The messages; each starts with the emoji of the source: U+274C in the two block
  lines, U+2705 in the success marker, U+26A0 U+FE0F in the warning.
\<close>

definition api_key_message :: "str \<Rightarrow> str" where
  "api_key_message file_path = [10060] @ lit '' Potential API key found in '' @ file_path"

definition password_message :: "str \<Rightarrow> str" where
  "password_message file_path =
     [10060] @ lit '' Potential hardcoded password in '' @ file_path"

definition passed_message :: str where
  "passed_message = [9989] @ lit '' Security audit passed''"

definition error_message :: "py_exception \<Rightarrow> str" where
  "error_message e = [9888, 65039] @ lit '' Security audit error: '' @ message e"

text \<open>
  \<^verbatim>\<open>result.stdout.strip().split('\n') if result.stdout.strip() else []\<close>
\<close>

definition staged_files_of :: "str \<Rightarrow> str list" where
  "staged_files_of out = (if strip out \<noteq> [] then split 10 (strip out) else [])"

text \<open>
  The body of the inner \<^verbatim>\<open>try\<close> for one path. \<open>Inl e\<close>: it raised \<open>e\<close>, in the
  fetch or in the \<^verbatim>\<open>print\<close> of a block line, which stands before \<^verbatim>\<open>return False\<close>;
  \<open>Inr (Some v)\<close>: it executed \<^verbatim>\<open>return v\<close>; \<open>Inr None\<close>: it fell through.
\<close>

definition scan_file ::
  "subprocess \<Rightarrow> text_stream \<Rightarrow> str \<Rightarrow> world \<Rightarrow> (py_exception + bool option) \<times> world" where
  "scan_file run out file_path w =
     (case subprocess_run run (git_show file_path) w of
        (Inl e, w1) \<Rightarrow> (Inl e, w1)
      | (Inr result, w1) \<Rightarrow>
          (let content = stdout result in
           if re_search False api_key_pattern content
           then (case print out (api_key_message file_path) w1 of
                   (Inl e, w2) \<Rightarrow> (Inl e, w2)
                 | (Inr u, w2) \<Rightarrow> (Inr (Some False), w2))
           else if re_search True password_pattern content
           then (case print out (password_message file_path) w1 of
                   (Inl e, w2) \<Rightarrow> (Inl e, w2)
                 | (Inr u, w2) \<Rightarrow> (Inr (Some False), w2))
           else (Inr None, w1)))"

text \<open>
  The \<^verbatim>\<open>for\<close> loop: an empty path is skipped; an \<^verbatim>\<open>Exception\<close> of the body is caught
  by \<^verbatim>\<open>except Exception: continue\<close>, any other exception leaves the loop; a
  \<^verbatim>\<open>return\<close> leaves the loop. \<open>Inl e\<close>: the loop raised \<open>e\<close>; \<open>Inr (Some v)\<close>: it
  executed \<^verbatim>\<open>return v\<close>; \<open>Inr None\<close>: it ran to its end.
\<close>

fun scan_files ::
  "subprocess \<Rightarrow> text_stream \<Rightarrow> str list \<Rightarrow> world \<Rightarrow> (py_exception + bool option) \<times> world" where
  "scan_files run out [] w = (Inr None, w)"
| "scan_files run out (file_path # rest) w =
     (if file_path = [] then scan_files run out rest w
      else (case scan_file run out file_path w of
              (Inl e, w1) \<Rightarrow>
                (if isinstance_Exception e then scan_files run out rest w1 else (Inl e, w1))
            | (Inr (Some v), w1) \<Rightarrow> (Inr (Some v), w1)
            | (Inr None, w1) \<Rightarrow> scan_files run out rest w1))"

text \<open>
  The body of the outer \<^verbatim>\<open>try\<close>: the listing, the loop, and after the loop the
  \<^verbatim>\<open>print\<close> of the success marker before \<^verbatim>\<open>return True\<close>.
\<close>

definition check_body ::
  "subprocess \<Rightarrow> text_stream \<Rightarrow> world \<Rightarrow> (py_exception + bool) \<times> world" where
  "check_body run out w =
     (case subprocess_run run git_diff_cached w of
        (Inl e, w1) \<Rightarrow> (Inl e, w1)
      | (Inr result, w1) \<Rightarrow>
          (case scan_files run out (staged_files_of (stdout result)) w1 of
             (Inl e, w2) \<Rightarrow> (Inl e, w2)
           | (Inr (Some v), w2) \<Rightarrow> (Inr v, w2)
           | (Inr None, w2) \<Rightarrow>
               (case print out passed_message w2 of
                  (Inl e, w3) \<Rightarrow> (Inl e, w3)
                | (Inr u, w3) \<Rightarrow> (Inr True, w3))))"

text \<open>
  \<^verbatim>\<open>check_staged_files\<close>: the outer handler catches an \<^verbatim>\<open>Exception\<close> of the body,
  prints the warning and returns \<^verbatim>\<open>True\<close>. \<open>Inl e\<close> is an exception that leaves the
  function: one of the body that is not an \<^verbatim>\<open>Exception\<close>, or one raised by the
  \<^verbatim>\<open>print\<close> of the handler itself.
\<close>

definition check_staged_files ::
  "subprocess \<Rightarrow> text_stream \<Rightarrow> world \<Rightarrow> (py_exception + bool) \<times> world" where
  "check_staged_files run out w =
     (case check_body run out w of
        (Inl e, w1) \<Rightarrow>
          (if isinstance_Exception e
           then (case print out (error_message e) w1 of
                   (Inl e', w2) \<Rightarrow> (Inl e', w2)
                 | (Inr u, w2) \<Rightarrow> (Inr True, w2))
           else (Inl e, w1))
      | (Inr v, w1) \<Rightarrow> (Inr v, w1))"

text \<open>
  The \<^verbatim>\<open>__main__\<close> block: \<^verbatim>\<open>sys.exit(1)\<close> when the check returns \<^verbatim>\<open>False\<close>,
  \<^verbatim>\<open>sys.exit(0)\<close> otherwise. An exception that leaves the check is handled nowhere:
  the process ends with it (for an \<^verbatim>\<open>Exception\<close>, a traceback and exit status 1) and
  not through \<^verbatim>\<open>sys.exit\<close>.
\<close>

datatype process_end = Exit int | Uncaught py_exception

definition main :: "subprocess \<Rightarrow> text_stream \<Rightarrow> world \<Rightarrow> process_end \<times> world" where
  "main run out w =
     (case check_staged_files run out w of
        (Inl e, w1) \<Rightarrow> (Uncaught e, w1)
      | (Inr ok, w1) \<Rightarrow> (if \<not> ok then (Exit 1, w1) else (Exit 0, w1)))"

definition start :: world where
  "start = \<lparr>console = [], commands = []\<rparr>"

section \<open>Vocabulary of the properties\<close>

text \<open>
  Words of the specification, as predicates: an alphanumeric character is one of
  \<^verbatim>\<open>[a-zA-Z0-9]\<close>, a quote is \<^verbatim>\<open>'\<close> or \<^verbatim>\<open>"\<close>, and two strings are equal
  case-insensitively when \<^verbatim>\<open>re.IGNORECASE\<close> matches them character by character.
\<close>

definition alphanumeric :: "codepoint \<Rightarrow> bool" where
  "alphanumeric c = ((97 \<le> c \<and> c \<le> 122) \<or> (65 \<le> c \<and> c \<le> 90) \<or> (48 \<le> c \<and> c \<le> 57))"

definition quote :: "codepoint \<Rightarrow> bool" where
  "quote c = (c = 39 \<or> c = 34)"

definition ignorecase_equal :: "str \<Rightarrow> str \<Rightarrow> bool" where
  "ignorecase_equal w u = list_all2 (char_matches True) w u"

text \<open>
  A content is sensitive when one of the two rules matches it; the message of a block
  follows the order of the checks (Rule A first). A path is clean when the loop passes
  over it without a word: it is empty, its fetch raises an \<^verbatim>\<open>Exception\<close>, or no rule
  matches its content. \<open>fetches\<close> are the commands the loop starts for a list of paths
  it passes over.
\<close>

definition sensitive :: "str \<Rightarrow> bool" where
  "sensitive content =
     (re_search False api_key_pattern content \<or> re_search True password_pattern content)"

definition block_message :: "str \<Rightarrow> str \<Rightarrow> str" where
  "block_message file_path content =
     (if re_search False api_key_pattern content then api_key_message file_path
      else password_message file_path)"

definition clean :: "subprocess \<Rightarrow> str \<Rightarrow> bool" where
  "clean run p =
     (p = [] \<or>
      (case run (git_show p) of
         Inl e \<Rightarrow> isinstance_Exception e
       | Inr r \<Rightarrow> \<not> sensitive (stdout r)))"

text \<open>
  The loop passes over a path without a verdict and without a line, the lines
  \<open>written\<close> being on the console, also when a rule matches its content and the write
  of the block line raises an \<^verbatim>\<open>Exception\<close>: the inner handler catches it.
\<close>

definition passed_over :: "subprocess \<Rightarrow> text_stream \<Rightarrow> str list \<Rightarrow> str \<Rightarrow> bool" where
  "passed_over run out written p =
     (p = [] \<or>
      (case run (git_show p) of
         Inl e \<Rightarrow> isinstance_Exception e
       | Inr r \<Rightarrow>
           (if sensitive (stdout r)
            then (case out written (block_message p (stdout r)) of
                    Some e \<Rightarrow> isinstance_Exception e
                  | None \<Rightarrow> False)
            else True)))"

definition fetches :: "str list \<Rightarrow> str list list" where
  "fetches paths = map git_show (filter (\<lambda>p. p \<noteq> []) paths)"




definition is_warning :: "str \<Rightarrow> bool" where
  "is_warning line =
     (take (length (error_message (Exception []))) line = error_message (Exception []))"


section \<open>Example consoles and repositories\<close>

text \<open>
  Three standard outputs: one that takes every line (UTF-8); one whose encoding is
  ASCII, on which the write of a line with a character above 127 raises
  \<^verbatim>\<open>UnicodeEncodeError\<close>; and one on which the write of a line that starts with a given
  character fails, the other lines being written.
\<close>

definition utf8_console :: text_stream where
  "utf8_console written line = None"

definition ascii_console :: text_stream where
  "ascii_console written line =
     (if list_all (\<lambda>c. c < 128) line then None
      else Some (Exception (lit ''ordinal not in range(128)'')))"

definition refusing :: "codepoint \<Rightarrow> text_stream" where
  "refusing c written line =
     (if take 1 line = [c] then Some (Exception (lit ''write failed'')) else None)"

text \<open>
  Collaborators for the scenarios of the specification; \<open>listing_of\<close> is what
  \<^verbatim>\<open>git diff --cached --name-only\<close> prints for the given paths, one on a line. One staged file
  \<^verbatim>\<open>config.py\<close> with the line \<^verbatim>\<open>API_KEY = "sk-abcdefghijklmnopqrstuvwxyz"\<close>; three
  staged files, the second with that line, the others with \<^verbatim>\<open>x = 1\<close>; nothing staged.
\<close>

definition listing_of :: "str list \<Rightarrow> completed_process" where
  "listing_of paths =
     \<lparr>returncode = 0, stdout = concat (map (\<lambda>p. p @ [10]) paths), stderr = []\<rparr>"

definition config_content :: str where
  "config_content = lit ''API_KEY = '' @ [34] @ lit ''sk-abcdefghijklmnopqrstuvwxyz'' @ [34, 10]"

definition plain_content :: str where
  "plain_content = lit ''x = 1'' @ [10]"

definition config_repository :: subprocess where
  "config_repository argv =
     (if argv = git_diff_cached
      then Inr (listing_of [lit ''config.py''])
      else if argv = git_show (lit ''config.py'')
      then Inr \<lparr>returncode = 0, stdout = config_content, stderr = []\<rparr>
      else Inl (Exception (lit ''unknown path'')))"

definition two_file_repository :: subprocess where
  "two_file_repository argv =
     (if argv = git_diff_cached
      then Inr (listing_of [lit ''a.py'', lit ''b.py'', lit ''c.py''])
      else if argv = git_show (lit ''a.py'')
      then Inr \<lparr>returncode = 0, stdout = plain_content, stderr = []\<rparr>
      else if argv = git_show (lit ''b.py'')
      then Inr \<lparr>returncode = 0, stdout = config_content, stderr = []\<rparr>
      else if argv = git_show (lit ''c.py'')
      then Inr \<lparr>returncode = 0, stdout = plain_content, stderr = []\<rparr>
      else Inl (Exception (lit ''unknown path'')))"

definition empty_index :: subprocess where
  "empty_index argv =
     (if argv = git_diff_cached then Inr \<lparr>returncode = 0, stdout = [], stderr = []\<rparr>
      else Inl (Exception (lit ''unknown path'')))"


definition git_missing :: subprocess where
  "git_missing argv = Inl (Exception (lit ''No such file or directory''))"

definition interrupted_listing :: subprocess where
  "interrupted_listing argv =
     (if argv = git_diff_cached then Inl KeyboardInterrupt else config_repository argv)"


definition binary_repository :: subprocess where
  "binary_repository argv =
     (if argv = git_diff_cached
      then Inr (listing_of [lit ''logo.png'', lit ''config.py''])
      else if argv = git_show (lit ''logo.png'')
      then Inl (Exception (lit ''invalid start byte''))
      else config_repository argv)"

text \<open>
  One staged file \<^verbatim>\<open>app.py\<close> with the given content: a password in mismatched
  quotes; quoted strings of 7 and of 8 characters; two short quoted strings on one line;
  a quoted string that runs over a line end.
\<close>

definition app_repository :: "str \<Rightarrow> subprocess" where
  "app_repository content argv =
     (if argv = git_diff_cached
      then Inr (listing_of [lit ''app.py''])
      else if argv = git_show (lit ''app.py'')
      then Inr \<lparr>returncode = 0, stdout = content, stderr = []\<rparr>
      else Inl (Exception (lit ''unknown path'')))"


definition short_password :: str where
  "short_password = lit ''password = '' @ [34] @ lit ''short17'' @ [34, 10]"

definition long_password :: str where
  "long_password = lit ''password = '' @ [34] @ lit ''longer18'' @ [34, 10]"

definition two_short_strings :: str where
  "two_short_strings =
     lit ''password = '' @ [34] @ lit ''abc'' @ [34] @ lit ''; user = '' @ [34] @ lit ''bob'' @
     [34, 10]"

definition multiline_secret :: str where
  "multiline_secret = lit ''password = '' @ [34] @ lit ''abc'' @ [10] @ lit ''defgh'' @ [34]"
section \<open>What the two patterns match\<close>

lemma match_here_One:
  "match_here ic (One a # p) s \<longleftrightarrow> (\<exists>c v. s = c # v \<and> atom_matches ic a c \<and> match_here ic p v)"
  by (cases s) auto

lemma match_here_Max_Repeat:
  "match_here ic (Max_Repeat n a # p) s \<longleftrightarrow>
     (\<exists>u v. s = u @ v \<and> n \<le> length u \<and> list_all (atom_matches ic a) u \<and> match_here ic p v)"
proof (induction s arbitrary: n)
  case Nil
  then show ?case by auto
next
  case (Cons c cs)
  show ?case (is "?L = ?R")
  proof
    assume ?L
    then consider "n = 0" "match_here ic p (c # cs)"
      | "atom_matches ic a c" "match_here ic (Max_Repeat (n - 1) a # p) cs"
      by auto
    then show ?R
    proof cases
      case 1
      then have "c # cs = [] @ (c # cs) \<and> n \<le> length ([]::str) \<and> list_all (atom_matches ic a) [] \<and> match_here ic p (c # cs)"
        by simp
      then show ?thesis by blast
    next
      case 2
      from 2(2) Cons.IH obtain u v where
        uv: "cs = u @ v" "n - 1 \<le> length u" "list_all (atom_matches ic a) u" "match_here ic p v"
        by blast
      with 2(1) have "c # cs = (c # u) @ v \<and> n \<le> length (c # u) \<and> list_all (atom_matches ic a) (c # u) \<and> match_here ic p v"
        by auto
      then show ?thesis by blast
    qed
  next
    assume ?R
    then obtain u v where
      uv: "c # cs = u @ v" "n \<le> length u" "list_all (atom_matches ic a) u" "match_here ic p v"
      by blast
    show ?L
    proof (cases u)
      case Nil
      with uv show ?thesis by auto
    next
      case (Cons x u')
      with uv have "cs = u' @ v" "n - 1 \<le> length u'" "list_all (atom_matches ic a) u'" "atom_matches ic a c"
        by auto
      with uv(4) Cons.IH have "match_here ic (Max_Repeat (n - 1) a # p) cs" by blast
      with \<open>atom_matches ic a c\<close> show ?thesis by simp
    qed
  qed
qed

lemma match_here_literals:
  "match_here ic (literals w @ p) s \<longleftrightarrow>
     (\<exists>u v. s = u @ v \<and> list_all2 (char_matches ic) w u \<and> match_here ic p v)"
proof (induction w arbitrary: s)
  case Nil
  then show ?case by (simp add: literals_def)
next
  case (Cons x w)
  show ?case
    apply (simp add: literals_def match_here_One list_all2_Cons1)
    apply (simp add: Cons.IH [unfolded literals_def])
    apply (auto)
     apply (metis append_Cons)
    by blast
qed

lemma re_search_iff:
  "re_search ic p s \<longleftrightarrow> (\<exists>u v. s = u @ v \<and> match_here ic p v)"
proof (induction s)
  case Nil
  then show ?case by simp
next
  case (Cons c cs)
  show ?case
    apply (simp add: Cons.IH)
    by (auto simp: Cons_eq_append_conv)
qed

lemma char_matches_exact: "list_all2 (char_matches False) w u \<longleftrightarrow> u = w"
  by (induction w arbitrary: u) (auto simp: char_matches_def list_all2_Cons1)

lemma alnum_class:
  "atom_matches False (In [Range 97 122, Range 65 90, Range 48 57]) c \<longleftrightarrow> alphanumeric c"
  by (simp add: alphanumeric_def)

lemma quote_class: "atom_matches True (In [Char 39, Char 34]) c \<longleftrightarrow> quote c"
  by (auto simp: quote_def char_matches_def ascii_lower_def case_extras_def split: if_splits)

lemma not_quote_class: "atom_matches True (Not_In [Char 39, Char 34]) c \<longleftrightarrow> \<not> quote c"
  by (auto simp: quote_def char_matches_def ascii_lower_def case_extras_def split: if_splits)

lemma not_quote_all:
  "list_all (atom_matches True (Not_In [Char 39, Char 34])) u \<longleftrightarrow> list_all (\<lambda>c. \<not> quote c) u"
  by (induction u) (simp_all add: not_quote_class del: atom_matches.simps)

lemma alnum_all:
  "list_all (atom_matches False (In [Range 97 122, Range 65 90, Range 48 57])) u \<longleftrightarrow>
     list_all alphanumeric u"
  by (induction u) (simp_all add: alnum_class del: atom_matches.simps)

lemma equals_literal: "atom_matches True (Literal 61) c \<longleftrightarrow> c = 61"
  by (auto simp: char_matches_def ascii_lower_def case_extras_def split: if_splits)

lemma any_class: "list_all (atom_matches ic Any) u \<longleftrightarrow> 10 \<notin> set u"
  by (induction u) auto

lemma match_here_Max_RepeatI:
  "n \<le> length u \<Longrightarrow> list_all (atom_matches ic a) u \<Longrightarrow> match_here ic p v \<Longrightarrow>
     match_here ic (Max_Repeat n a # p) (u @ v)"
  unfolding match_here_Max_Repeat by blast

lemma match_here_literalsI:
  "list_all2 (char_matches ic) w u \<Longrightarrow> match_here ic p v \<Longrightarrow>
     match_here ic (literals w @ p) (u @ v)"
  unfolding match_here_literals by blast

lemma re_searchI: "match_here ic p v \<Longrightarrow> re_search ic p (u @ v)"
  unfolding re_search_iff by blast

lemma api_key_search_iff:
  "re_search False api_key_pattern s \<longleftrightarrow>
     (\<exists>pre body post. s = pre @ lit ''sk-'' @ body @ post \<and> 20 \<le> length body \<and>
        list_all alphanumeric body)"
  (is "?L = ?R")
proof
  assume ?L
  then obtain pre v where s: "s = pre @ v" and "match_here False api_key_pattern v"
    unfolding re_search_iff by blast
  then obtain v1 where v: "v = lit ''sk-'' @ v1"
    and "match_here False [Max_Repeat 20 (In [Range 97 122, Range 65 90, Range 48 57])] v1"
    unfolding api_key_pattern_def match_here_literals char_matches_exact by blast
  then obtain body post where "v1 = body @ post" "20 \<le> length body" "list_all alphanumeric body"
    unfolding match_here_Max_Repeat alnum_all by blast
  with s v show ?R by blast
next
  assume ?R
  then obtain pre body post where s: "s = pre @ lit ''sk-'' @ body @ post"
    and b: "20 \<le> length body" "list_all alphanumeric body"
    by blast
  have "list_all (atom_matches False (In [Range 97 122, Range 65 90, Range 48 57])) body"
    using b(2) unfolding alnum_all .
  with b(1)
  have "match_here False [Max_Repeat 20 (In [Range 97 122, Range 65 90, Range 48 57])] (body @ post)"
    by (intro match_here_Max_RepeatI) simp_all
  then have "match_here False api_key_pattern (lit ''sk-'' @ body @ post)"
    unfolding api_key_pattern_def by (intro match_here_literalsI) (simp_all add: char_matches_exact)
  then show ?L unfolding s by (rule re_searchI)
qed

lemma password_search_iff:
  "re_search True password_pattern s \<longleftrightarrow>
     (\<exists>pre pw a b q1 body q2 post.
        s = pre @ pw @ a @ [61] @ b @ [q1] @ body @ [q2] @ post \<and>
        ignorecase_equal (lit ''password'') pw \<and> 10 \<notin> set a \<and> 10 \<notin> set b \<and>
        quote q1 \<and> list_all (\<lambda>c. \<not> quote c) body \<and> 8 \<le> length body \<and> quote q2)"
  (is "?L = ?R")
proof
  assume ?L
  then obtain pre v where s: "s = pre @ v" and "match_here True password_pattern v"
    unfolding re_search_iff by blast
  then obtain pw v1 where v: "v = pw @ v1" and pw: "ignorecase_equal (lit ''password'') pw"
    and "match_here True [Max_Repeat 0 Any, One (Literal 61), Max_Repeat 0 Any,
           One (In [Char 39, Char 34]), Max_Repeat 8 (Not_In [Char 39, Char 34]),
           One (In [Char 39, Char 34])] v1"
    unfolding password_pattern_def match_here_literals ignorecase_equal_def by blast
  then obtain a v2 where v1: "v1 = a @ v2" and a: "10 \<notin> set a"
    and "match_here True [One (Literal 61), Max_Repeat 0 Any,
           One (In [Char 39, Char 34]), Max_Repeat 8 (Not_In [Char 39, Char 34]),
           One (In [Char 39, Char 34])] v2"
    unfolding match_here_Max_Repeat [of _ 0] any_class by blast
  then obtain v3 where v2: "v2 = [61] @ v3"
    and "match_here True [Max_Repeat 0 Any,
           One (In [Char 39, Char 34]), Max_Repeat 8 (Not_In [Char 39, Char 34]),
           One (In [Char 39, Char 34])] v3"
    unfolding match_here_One equals_literal by auto
  then obtain b v4 where v3: "v3 = b @ v4" and b: "10 \<notin> set b"
    and "match_here True [One (In [Char 39, Char 34]),
           Max_Repeat 8 (Not_In [Char 39, Char 34]), One (In [Char 39, Char 34])] v4"
    unfolding match_here_Max_Repeat [of _ 0] any_class by blast
  then obtain q1 v5 where v4: "v4 = [q1] @ v5" and q1: "quote q1"
    and "match_here True [Max_Repeat 8 (Not_In [Char 39, Char 34]),
           One (In [Char 39, Char 34])] v5"
    unfolding match_here_One quote_class by auto
  then obtain body v6 where v5: "v5 = body @ v6" and body: "8 \<le> length body"
      "list_all (atom_matches True (Not_In [Char 39, Char 34])) body"
    and "match_here True [One (In [Char 39, Char 34])] v6"
    unfolding match_here_Max_Repeat [of _ 8] by blast
  then obtain q2 post where v6: "v6 = [q2] @ post" and q2: "quote q2"
    unfolding match_here_One quote_class by auto
  have nq: "list_all (\<lambda>c. \<not> quote c) body"
    using body(2) unfolding not_quote_all .
  have "s = pre @ pw @ a @ [61] @ b @ [q1] @ body @ [q2] @ post"
    by (simp only: s v v1 v2 v3 v4 v5 v6)
  with pw a b q1 nq body(1) q2 show ?R by blast
next
  assume ?R
  then obtain pre pw a b q1 body q2 post where
    s: "s = pre @ pw @ a @ [61] @ b @ [q1] @ body @ [q2] @ post"
    and pw: "ignorecase_equal (lit ''password'') pw" and a: "10 \<notin> set a" and b: "10 \<notin> set b"
    and q1: "quote q1" and nq: "list_all (\<lambda>c. \<not> quote c) body" and len: "8 \<le> length body"
    and q2: "quote q2"
    by blast
  have "match_here True [One (In [Char 39, Char 34])] ([q2] @ post)"
    using q2 by (simp add: quote_class del: atom_matches.simps)
  moreover have "list_all (atom_matches True (Not_In [Char 39, Char 34])) body"
    using nq unfolding not_quote_all .
  ultimately have "match_here True [Max_Repeat 8 (Not_In [Char 39, Char 34]),
       One (In [Char 39, Char 34])] (body @ [q2] @ post)"
    using len by (intro match_here_Max_RepeatI)
  then have "match_here True [One (In [Char 39, Char 34]),
       Max_Repeat 8 (Not_In [Char 39, Char 34]), One (In [Char 39, Char 34])]
       ([q1] @ body @ [q2] @ post)"
    using q1 by (simp add: quote_class del: atom_matches.simps)
  then have "match_here True [Max_Repeat 0 Any, One (In [Char 39, Char 34]),
       Max_Repeat 8 (Not_In [Char 39, Char 34]), One (In [Char 39, Char 34])]
       (b @ [q1] @ body @ [q2] @ post)"
    using b by (intro match_here_Max_RepeatI) (simp_all add: any_class)
  then have "match_here True [One (Literal 61), Max_Repeat 0 Any, One (In [Char 39, Char 34]),
       Max_Repeat 8 (Not_In [Char 39, Char 34]), One (In [Char 39, Char 34])]
       ([61] @ b @ [q1] @ body @ [q2] @ post)"
    by (simp add: equals_literal del: atom_matches.simps)
  then have "match_here True [Max_Repeat 0 Any, One (Literal 61), Max_Repeat 0 Any,
       One (In [Char 39, Char 34]), Max_Repeat 8 (Not_In [Char 39, Char 34]),
       One (In [Char 39, Char 34])] (a @ [61] @ b @ [q1] @ body @ [q2] @ post)"
    using a by (intro match_here_Max_RepeatI) (simp_all add: any_class)
  then have "match_here True password_pattern
       (pw @ a @ [61] @ b @ [q1] @ body @ [q2] @ post)"
    unfolding password_pattern_def using pw
    by (intro match_here_literalsI) (simp_all add: ignorecase_equal_def)
  then show ?L unfolding s by (rule re_searchI)
qed


section \<open>Lines, substrings and quotes\<close>

lemma split_nonempty: "split sep s \<noteq> []"
  by (induction s) auto

lemma split_step:
  "split sep (c # cs) =
     (if c = sep then [] # split sep cs
      else (case split sep cs of [] \<Rightarrow> [[c]] | l # ls \<Rightarrow> (c # l) # ls))"
  using split_nonempty [of sep cs] by (cases "split sep cs") auto

lemma hd_split: "hd (split sep s) = takeWhile (\<lambda>c. c \<noteq> sep) s"
  by (induction s) auto

lemma split_field_is_substring:
  "l \<in> set (split sep s) \<Longrightarrow> \<exists>u v. s = u @ l @ v"
proof (induction s arbitrary: l)
  case Nil
  then show ?case by simp
next
  case (Cons c cs)
  obtain h t where ht: "split sep cs = h # t"
    using split_nonempty [of sep cs] by (cases "split sep cs") auto
  have h: "h = takeWhile (\<lambda>c. c \<noteq> sep) cs"
    using hd_split [of sep cs] ht by simp
  from Cons.prems ht consider "l = []" | "l = c # h" | "l \<in> set (split sep cs)"
    by (auto split: if_splits)
  then show ?case
  proof cases
    case 1
    then have "c # cs = [] @ l @ (c # cs)" by simp
    then show ?thesis by blast
  next
    case 2
    then have "c # cs = [] @ l @ dropWhile (\<lambda>c. c \<noteq> sep) cs"
      by (simp add: h)
    then show ?thesis by blast
  next
    case 3
    from Cons.IH [OF this] obtain u v where "cs = u @ l @ v" by blast
    then have "c # cs = (c # u) @ l @ v" by simp
    then show ?thesis by blast
  qed
qed

lemma takeWhile_segment:
  "sep \<notin> set m \<Longrightarrow>
     takeWhile (\<lambda>c. c \<noteq> sep) (m @ post) = m @ takeWhile (\<lambda>c. c \<noteq> sep) post"
  by (induction m) auto

lemma split_keeps_segment:
  "sep \<notin> set m \<Longrightarrow> \<exists>l\<in>set (split sep (pre @ m @ post)). \<exists>u v. l = u @ m @ v"
proof (induction pre)
  case Nil
  have "hd (split sep (m @ post)) = m @ takeWhile (\<lambda>c. c \<noteq> sep) post"
    using Nil by (simp add: hd_split takeWhile_segment)
  moreover have "hd (split sep (m @ post)) \<in> set (split sep (m @ post))"
    using split_nonempty by simp
  ultimately have "m @ takeWhile (\<lambda>c. c \<noteq> sep) post \<in> set (split sep ([] @ m @ post))"
    by simp
  moreover have "m @ takeWhile (\<lambda>c. c \<noteq> sep) post = [] @ m @ takeWhile (\<lambda>c. c \<noteq> sep) post"
    by simp
  ultimately show ?case by blast
next
  case (Cons c pre)
  from Cons.IH [OF Cons.prems] obtain l u v where
    l: "l \<in> set (split sep (pre @ m @ post))" "l = u @ m @ v" by blast
  obtain h t where ht: "split sep (pre @ m @ post) = h # t"
    using split_nonempty [of sep "pre @ m @ post"] by (cases "split sep (pre @ m @ post)") auto
  show ?case
  proof (cases "c = sep")
    case True
    with l(1) have "l \<in> set (split sep ((c # pre) @ m @ post))" by simp
    with l(2) show ?thesis by blast
  next
    case False
    from l(1) ht have "l = h \<or> l \<in> set t" by simp
    then show ?thesis
    proof
      assume "l = h"
      with False ht have "c # l \<in> set (split sep ((c # pre) @ m @ post))" by simp
      moreover have "c # l = (c # u) @ m @ v" using l(2) by simp
      ultimately show ?thesis by blast
    next
      assume "l \<in> set t"
      with False ht have "l \<in> set (split sep ((c # pre) @ m @ post))" by simp
      with l(2) show ?thesis by blast
    qed
  qed
qed

lemma match_here_append: "match_here ic p v \<Longrightarrow> match_here ic p (v @ w)"
proof (induction p arbitrary: v)
  case Nil
  then show ?case by simp
next
  case (Cons n p)
  show ?case
  proof (cases n)
    case (One a)
    from Cons.prems [unfolded One match_here_One]
    obtain c v' where v: "v = c # v'" "atom_matches ic a c" "match_here ic p v'"
      by blast
    from Cons.IH [OF v(3)] v(1,2) One show ?thesis by simp
  next
    case (Max_Repeat k a)
    from Cons.prems [unfolded Max_Repeat match_here_Max_Repeat]
    obtain u v' where v: "v = u @ v'" "k \<le> length u"
      "list_all (atom_matches ic a) u" "match_here ic p v'"
      by blast
    from match_here_Max_RepeatI [OF v(2,3) Cons.IH [OF v(4)]] v(1) Max_Repeat
    show ?thesis by simp
  qed
qed

lemma re_search_substring: "re_search ic p l \<Longrightarrow> re_search ic p (u @ l @ v)"
proof -
  assume "re_search ic p l"
  then obtain u' v' where l: "l = u' @ v'" "match_here ic p v'"
    unfolding re_search_iff by blast
  from match_here_append [OF l(2)] have "match_here ic p (v' @ v)" .
  then have "re_search ic p ((u @ u') @ (v' @ v))" by (rule re_searchI)
  with l(1) show ?thesis by simp
qed

lemma char_matches_letter:
  "97 \<le> p \<Longrightarrow> p \<le> 122 \<Longrightarrow> char_matches True p c \<Longrightarrow> 65 \<le> c"
  by (auto simp: char_matches_def ascii_lower_def case_extras_def split: if_splits)

lemma ignorecase_letters:
  "list_all2 (char_matches True) w u \<Longrightarrow> list_all (\<lambda>p. 97 \<le> p \<and> p \<le> 122) w \<Longrightarrow>
     list_all (\<lambda>c. 65 \<le> c) u"
proof (induction w arbitrary: u)
  case Nil
  then show ?case by simp
next
  case (Cons p w)
  then obtain c u' where u: "u = c # u'" "char_matches True p c" "list_all2 (char_matches True) w u'"
    by (auto simp: list_all2_Cons1)
  from Cons.prems(2) have p: "97 \<le> p" "p \<le> 122" "list_all (\<lambda>p. 97 \<le> p \<and> p \<le> 122) w"
    by simp_all
  from char_matches_letter [OF p(1,2) u(2)] Cons.IH [OF u(3) p(3)] u(1) show ?case by simp
qed

lemma password_word:
  assumes "ignorecase_equal (lit ''password'') pw"
  shows "10 \<notin> set pw" and "list_all (\<lambda>c. \<not> quote c) pw"
proof -
  have "list_all (\<lambda>p. 97 \<le> p \<and> p \<le> 122) (lit ''password'')"
    by (simp add: lit_def)
  with assms have *: "list_all (\<lambda>c. 65 \<le> c) pw"
    unfolding ignorecase_equal_def by (rule ignorecase_letters)
  then show "10 \<notin> set pw" by (auto simp: list_all_iff)
  from * show "list_all (\<lambda>c. \<not> quote c) pw" by (auto simp: list_all_iff quote_def)
qed

lemma first_quote_unique:
  assumes "x @ q # r = x' @ q' # r'"
    and "list_all (\<lambda>c. \<not> quote c) x" and "quote q"
    and "list_all (\<lambda>c. \<not> quote c) x'" and "quote q'"
  shows "x' = x \<and> r' = r"
proof -
  have "takeWhile (\<lambda>c. \<not> quote c) (x @ q # r) = x"
    using assms(2,3) by (simp add: list_all_iff)
  moreover have "takeWhile (\<lambda>c. \<not> quote c) (x' @ q' # r') = x'"
    using assms(4,5) by (simp add: list_all_iff)
  ultimately have "x' = x" using assms(1) by simp
  with assms(1) show ?thesis by simp
qed

lemma two_quotes_unique:
  assumes eq: "x @ q1 # body @ q2 # post = x' @ q1' # body' @ q2' # post'"
    and x: "list_all (\<lambda>c. \<not> quote c) x" and body: "list_all (\<lambda>c. \<not> quote c) body"
    and post: "list_all (\<lambda>c. \<not> quote c) post"
    and q: "quote q1" "quote q2" "quote q1'" "quote q2'"
    and body': "list_all (\<lambda>c. \<not> quote c) body'"
  shows "body' = body"
proof -
  have nf: "\<And>l. list_all (\<lambda>c. \<not> quote c) l \<Longrightarrow> filter quote l = []"
    by (simp add: list_all_iff filter_empty_conv)
  have "filter quote (x @ q1 # body @ q2 # post) = [q1, q2]"
    using q by (simp add: nf [OF x] nf [OF body] nf [OF post])
  moreover have "filter quote (x' @ q1' # body' @ q2' # post') =
      filter quote x' @ [q1', q2'] @ filter quote post'"
    using q by (simp add: nf [OF body'])
  ultimately have "filter quote x' @ [q1', q2'] @ filter quote post' = [q1, q2]"
    using eq by simp
  then have "length (filter quote x' @ [q1', q2'] @ filter quote post') = 2" by simp
  then have "filter quote x' = []" by simp
  then have x': "list_all (\<lambda>c. \<not> quote c) x'"
    by (simp add: list_all_iff filter_empty_conv)
  from first_quote_unique [OF eq x q(1) x' q(3)]
  have "body @ q2 # post = body' @ q2' # post'" by simp
  from first_quote_unique [OF this body q(2) body' q(4)] show ?thesis by simp
qed

section \<open>The loop over the staged files\<close>

lemma print_written:
  "out (console w) line = None \<Longrightarrow>
     print out line w = (Inr (), w\<lparr>console := console w @ [line]\<rparr>)"
  by (simp add: print_def)

lemma print_raised: "out (console w) line = Some e \<Longrightarrow> print out line w = (Inl e, w)"
  by (simp add: print_def)

lemma scan_file_raised:
  "run (git_show f) = Inl e \<Longrightarrow>
     scan_file run out f w = (Inl e, w\<lparr>commands := commands w @ [git_show f]\<rparr>)"
  by (simp add: scan_file_def subprocess_run_def)

lemma scan_file_sensitive:
  "run (git_show f) = Inr r \<Longrightarrow> sensitive (stdout r) \<Longrightarrow>
     scan_file run out f w =
       (case print out (block_message f (stdout r))
               (w\<lparr>commands := commands w @ [git_show f]\<rparr>) of
          (Inl e, w2) \<Rightarrow> (Inl e, w2)
        | (Inr u, w2) \<Rightarrow> (Inr (Some False), w2))"
  by (auto simp: scan_file_def subprocess_run_def sensitive_def block_message_def)

lemma scan_file_blocks:
  "run (git_show f) = Inr r \<Longrightarrow> sensitive (stdout r) \<Longrightarrow>
   out (console w) (block_message f (stdout r)) = None \<Longrightarrow>
     scan_file run out f w =
       (Inr (Some False),
        w\<lparr>commands := commands w @ [git_show f],
          console := console w @ [block_message f (stdout r)]\<rparr>)"
  by (simp add: scan_file_sensitive print_written)

lemma scan_file_print_raised:
  "run (git_show f) = Inr r \<Longrightarrow> sensitive (stdout r) \<Longrightarrow>
   out (console w) (block_message f (stdout r)) = Some e \<Longrightarrow>
     scan_file run out f w = (Inl e, w\<lparr>commands := commands w @ [git_show f]\<rparr>)"
  by (simp add: scan_file_sensitive print_raised)

lemma scan_file_not_sensitive:
  "run (git_show f) = Inr r \<Longrightarrow> \<not> sensitive (stdout r) \<Longrightarrow>
     scan_file run out f w = (Inr None, w\<lparr>commands := commands w @ [git_show f]\<rparr>)"
  by (simp add: scan_file_def subprocess_run_def sensitive_def)

lemma scan_files_step:
  "f \<noteq> [] \<Longrightarrow> scan_file run out f w = (r, w1) \<Longrightarrow>
     scan_files run out (f # fs) w =
       (case r of
          Inl e \<Rightarrow> (if isinstance_Exception e then scan_files run out fs w1 else (Inl e, w1))
        | Inr None \<Rightarrow> scan_files run out fs w1
        | Inr (Some v) \<Rightarrow> (Inr (Some v), w1))"
  by (simp split: sum.splits option.splits)

lemma scan_files_Cons_raised:
  "f \<noteq> [] \<Longrightarrow> run (git_show f) = Inl e \<Longrightarrow> isinstance_Exception e \<Longrightarrow>
     scan_files run out (f # fs) w =
       scan_files run out fs (w\<lparr>commands := commands w @ [git_show f]\<rparr>)"
  by (simp add: scan_file_raised)

lemma scan_files_Cons_interrupted:
  "f \<noteq> [] \<Longrightarrow> run (git_show f) = Inl e \<Longrightarrow> \<not> isinstance_Exception e \<Longrightarrow>
     scan_files run out (f # fs) w = (Inl e, w\<lparr>commands := commands w @ [git_show f]\<rparr>)"
  by (simp add: scan_file_raised)

lemma scan_files_Cons_not_sensitive:
  "f \<noteq> [] \<Longrightarrow> run (git_show f) = Inr r \<Longrightarrow> \<not> sensitive (stdout r) \<Longrightarrow>
     scan_files run out (f # fs) w =
       scan_files run out fs (w\<lparr>commands := commands w @ [git_show f]\<rparr>)"
  by (simp add: scan_file_not_sensitive)

lemma scan_files_Cons_blocks:
  "f \<noteq> [] \<Longrightarrow> run (git_show f) = Inr r \<Longrightarrow> sensitive (stdout r) \<Longrightarrow>
   out (console w) (block_message f (stdout r)) = None \<Longrightarrow>
     scan_files run out (f # fs) w =
       (Inr (Some False),
        w\<lparr>commands := commands w @ [git_show f],
          console := console w @ [block_message f (stdout r)]\<rparr>)"
  by (simp add: scan_file_blocks)

lemma scan_files_Cons_swallowed:
  "f \<noteq> [] \<Longrightarrow> run (git_show f) = Inr r \<Longrightarrow> sensitive (stdout r) \<Longrightarrow>
   out (console w) (block_message f (stdout r)) = Some e \<Longrightarrow> isinstance_Exception e \<Longrightarrow>
     scan_files run out (f # fs) w =
       scan_files run out fs (w\<lparr>commands := commands w @ [git_show f]\<rparr>)"
  by (simp add: scan_file_print_raised)

lemma scan_files_append_clean:
  "list_all (clean run) pre \<Longrightarrow>
     scan_files run out (pre @ rest) w =
       scan_files run out rest (w\<lparr>commands := commands w @ fetches pre\<rparr>)"
proof (induction pre arbitrary: w)
  case Nil
  then show ?case by (simp add: fetches_def)
next
  case (Cons f pre)
  then have IH: "\<And>w. scan_files run out (pre @ rest) w =
       scan_files run out rest (w\<lparr>commands := commands w @ fetches pre\<rparr>)"
    by simp
  show ?case
  proof (cases "f = []")
    case True
    then show ?thesis by (simp add: IH fetches_def)
  next
    case False
    with Cons.prems have c:
      "case run (git_show f) of Inl e \<Rightarrow> isinstance_Exception e | Inr r \<Rightarrow> \<not> sensitive (stdout r)"
      by (simp add: clean_def)
    show ?thesis
    proof (cases "run (git_show f)")
      case (Inl e)
      with c have "isinstance_Exception e" by simp
      with Inl False show ?thesis by (simp add: scan_file_raised IH fetches_def)
    next
      case (Inr r)
      with c have "\<not> sensitive (stdout r)" by simp
      with Inr False show ?thesis by (simp add: scan_file_not_sensitive IH fetches_def)
    qed
  qed
qed


lemma clean_passed_over: "clean run p \<Longrightarrow> passed_over run out written p"
  by (auto simp: clean_def passed_over_def split: sum.splits)

lemma scan_files_passed_over:
  "list_all (passed_over run out (console w)) files \<Longrightarrow>
     scan_files run out files w = (Inr None, w\<lparr>commands := commands w @ fetches files\<rparr>)"
proof (induction files arbitrary: w)
  case Nil
  then show ?case by (simp add: fetches_def)
next
  case (Cons f files)
  have IH: "scan_files run out files (w\<lparr>commands := commands w @ [git_show f]\<rparr>) =
      (Inr None, w\<lparr>commands := commands w @ [git_show f] @ fetches files\<rparr>)"
    using Cons.IH [of "w\<lparr>commands := commands w @ [git_show f]\<rparr>"] Cons.prems by simp
  show ?case
  proof (cases "f = []")
    case True
    with Cons.IH [of w] Cons.prems show ?thesis by (simp add: fetches_def)
  next
    case False
    show ?thesis
    proof (cases "run (git_show f)")
      case (Inl e)
      with False Cons.prems have "isinstance_Exception e" by (simp add: passed_over_def)
      from scan_files_Cons_raised [where run = run and out = out, OF False Inl this] IH False show ?thesis
        by (simp add: fetches_def)
    next
      case (Inr r)
      show ?thesis
      proof (cases "sensitive (stdout r)")
        case False
        from scan_files_Cons_not_sensitive [where run = run and out = out, OF \<open>f \<noteq> []\<close> Inr False] IH \<open>f \<noteq> []\<close>
        show ?thesis by (simp add: fetches_def)
      next
        case True
        with \<open>f \<noteq> []\<close> Inr Cons.prems obtain e where
          e: "out (console w) (block_message f (stdout r)) = Some e" "isinstance_Exception e"
          by (auto simp: passed_over_def split: option.splits)
        from scan_files_Cons_swallowed [where run = run and out = out, OF \<open>f \<noteq> []\<close> Inr True e] IH \<open>f \<noteq> []\<close>
        show ?thesis by (simp add: fetches_def)
      qed
    qed
  qed
qed

lemma scan_files_first_sensitive:
  assumes "list_all (clean run) pre" "f \<noteq> []" "run (git_show f) = Inr r" "sensitive (stdout r)"
    and "out (console w) (block_message f (stdout r)) = None"
  shows "scan_files run out (pre @ f # post) w =
           (Inr (Some False),
            w\<lparr>commands := commands w @ fetches pre @ [git_show f],
              console := console w @ [block_message f (stdout r)]\<rparr>)"
  using assms by (simp add: scan_files_append_clean scan_file_blocks)

lemma scan_files_blocks:
  assumes "\<forall>written line. out written line = None"
    and "\<forall>p e. run (git_show p) = Inl e \<longrightarrow> isinstance_Exception e"
    and "f \<in> set files" "f \<noteq> []" "run (git_show f) = Inr r" "sensitive (stdout r)"
  shows "fst (scan_files run out files w) = Inr (Some False)"
proof -
  have "\<not> clean run f" using assms(4-6) by (simp add: clean_def)
  with assms(3) have "\<exists>x\<in>set files. \<not> clean run x" by blast
  then obtain pre g post where split: "files = pre @ g # post" "\<not> clean run g"
    "\<forall>x\<in>set pre. \<not> \<not> clean run x"
    using split_list_first_prop [of files "\<lambda>x. \<not> clean run x"] by blast
  from split(2) assms(2) obtain r' where
    g: "g \<noteq> []" "run (git_show g) = Inr r'" "sensitive (stdout r')"
    by (auto simp: clean_def split: sum.splits)
  from split(3) have "list_all (clean run) pre" by (simp add: list_all_iff)
  with g assms(1) show ?thesis
    unfolding split(1) by (simp add: scan_files_first_sensitive)
qed

lemma check_body_listed:
  "run git_diff_cached = Inr r \<Longrightarrow>
     check_body run out w =
       (case scan_files run out (staged_files_of (stdout r))
               (w\<lparr>commands := commands w @ [git_diff_cached]\<rparr>) of
          (Inl e, w2) \<Rightarrow> (Inl e, w2)
        | (Inr (Some v), w2) \<Rightarrow> (Inr v, w2)
        | (Inr None, w2) \<Rightarrow>
            (case print out passed_message w2 of
               (Inl e, w3) \<Rightarrow> (Inl e, w3)
             | (Inr u, w3) \<Rightarrow> (Inr True, w3)))"
  by (simp add: check_body_def subprocess_run_def)

lemma check_body_raised:
  "run git_diff_cached = Inl e \<Longrightarrow>
     check_body run out w = (Inl e, w\<lparr>commands := commands w @ [git_diff_cached]\<rparr>)"
  by (simp add: check_body_def subprocess_run_def)

lemma check_blocked:
  assumes "run git_diff_cached = Inr r"
    and "fst (scan_files run out (staged_files_of (stdout r))
               (w\<lparr>commands := commands w @ [git_diff_cached]\<rparr>)) = Inr (Some False)"
  shows "fst (check_staged_files run out w) = Inr False"
    and "fst (main run out w) = Exit 1"
  using assms
  by (auto simp: check_staged_files_def main_def check_body_listed
      split: prod.splits sum.splits option.splits)

lemma check_staged_files_returned:
  "check_body run out w = (Inr v, w') \<Longrightarrow> check_staged_files run out w = (Inr v, w')"
  by (simp add: check_staged_files_def)

lemma check_staged_files_handled:
  "check_body run out w = (Inl e, w') \<Longrightarrow> isinstance_Exception e \<Longrightarrow>
   out (console w') (error_message e) = None \<Longrightarrow>
     check_staged_files run out w =
       (Inr True, w'\<lparr>console := console w' @ [error_message e]\<rparr>)"
  by (simp add: check_staged_files_def print_written)

lemma check_staged_files_handler_raised:
  "check_body run out w = (Inl e, w') \<Longrightarrow> isinstance_Exception e \<Longrightarrow>
   out (console w') (error_message e) = Some e' \<Longrightarrow>
     check_staged_files run out w = (Inl e', w')"
  by (simp add: check_staged_files_def print_raised)

lemma check_staged_files_not_caught:
  "check_body run out w = (Inl e, w') \<Longrightarrow> \<not> isinstance_Exception e \<Longrightarrow>
     check_staged_files run out w = (Inl e, w')"
  by (simp add: check_staged_files_def)

lemma main_returned:
  "check_staged_files run out w = (Inr v, w') \<Longrightarrow>
     main run out w = (Exit (if v then 0 else 1), w')"
  by (simp add: main_def)

lemma main_uncaught:
  "check_staged_files run out w = (Inl e, w') \<Longrightarrow> main run out w = (Uncaught e, w')"
  by (simp add: main_def)

lemma git_show_not_listing: "git_show p \<noteq> git_diff_cached"
  by (simp add: git_show_def git_diff_cached_def)

lemma git_show_inject: "git_show p = git_show q \<longleftrightarrow> p = q"
  by (simp add: git_show_def)

lemma is_warning_error_message: "is_warning (error_message e)"
  by (simp add: is_warning_def error_message_def)

lemma Exception_caught: "isinstance_Exception (Exception m)"
  by simp




lemma check_body_no_files:
  "run git_diff_cached = Inr listing \<Longrightarrow> staged_files_of (stdout listing) = [] \<Longrightarrow>
     check_body run out w =
       (case print out passed_message (w\<lparr>commands := commands w @ [git_diff_cached]\<rparr>) of
          (Inl e, w3) \<Rightarrow> (Inl e, w3)
        | (Inr u, w3) \<Rightarrow> (Inr True, w3))"
  by (simp add: check_body_listed)


lemma check_body_passed_over:
  assumes "run git_diff_cached = Inr listing"
    and "list_all (passed_over run out (console w)) (staged_files_of (stdout listing))"
  shows "check_body run out w =
           (case print out passed_message
                   (w\<lparr>commands := commands w @ [git_diff_cached] @
                        fetches (staged_files_of (stdout listing))\<rparr>) of
              (Inl e, w3) \<Rightarrow> (Inl e, w3)
            | (Inr u, w3) \<Rightarrow> (Inr True, w3))"
proof -
  let ?w = "w\<lparr>commands := commands w @ [git_diff_cached]\<rparr>"
  from assms(2) have "list_all (passed_over run out (console ?w)) (staged_files_of (stdout listing))"
    by simp
  from scan_files_passed_over [OF this] show ?thesis
    by (simp add: check_body_listed [of run listing, OF assms(1)])
qed

lemma check_staged_files_passed:
  assumes "run git_diff_cached = Inr listing"
    and "list_all (passed_over run out (console w)) (staged_files_of (stdout listing))"
    and "out (console w) passed_message = None"
  shows "check_staged_files run out w =
           (Inr True,
            w\<lparr>commands := commands w @ [git_diff_cached] @
                 fetches (staged_files_of (stdout listing)),
              console := console w @ [passed_message]\<rparr>)"
proof -
  have "check_body run out w =
      (Inr True,
       w\<lparr>commands := commands w @ [git_diff_cached] @
            fetches (staged_files_of (stdout listing)),
         console := console w @ [passed_message]\<rparr>)"
    using assms(3) by (simp add: check_body_passed_over [of run listing, OF assms(1,2)] print_def)
  then show ?thesis by (rule check_staged_files_returned)
qed

lemma check_staged_files_nothing_written:
  assumes "run git_diff_cached = Inr listing"
    and "list_all (passed_over run out (console w)) (staged_files_of (stdout listing))"
    and "out (console w) passed_message = Some e" and "isinstance_Exception e"
    and "out (console w) (error_message e) = Some e'"
  shows "check_staged_files run out w =
           (Inl e',
            w\<lparr>commands := commands w @ [git_diff_cached] @
                 fetches (staged_files_of (stdout listing))\<rparr>)"
proof -
  have "check_body run out w =
      (Inl e,
       w\<lparr>commands := commands w @ [git_diff_cached] @
            fetches (staged_files_of (stdout listing))\<rparr>)"
    using assms(3) by (simp add: check_body_passed_over [of run listing, OF assms(1,2)] print_def)
  from check_staged_files_handler_raised [OF this assms(4)] assms(5) show ?thesis by simp
qed

lemma check_staged_files_first_sensitive:
  assumes "run git_diff_cached = Inr listing"
    and "staged_files_of (stdout listing) = pre @ f # post"
    and "list_all (clean run) pre" and "f \<noteq> []"
    and "run (git_show f) = Inr r" and "sensitive (stdout r)"
    and "out (console w) (block_message f (stdout r)) = None"
  shows "check_staged_files run out w =
           (Inr False,
            w\<lparr>commands := commands w @ [git_diff_cached] @ fetches pre @ [git_show f],
              console := console w @ [block_message f (stdout r)]\<rparr>)"
proof -
  let ?w = "w\<lparr>commands := commands w @ [git_diff_cached]\<rparr>"
  from assms(7) have "out (console ?w) (block_message f (stdout r)) = None" by simp
  from scan_files_first_sensitive [of run pre f r out ?w post, OF assms(3-6) this]
  have "check_body run out w =
      (Inr False,
       w\<lparr>commands := commands w @ [git_diff_cached] @ fetches pre @ [git_show f],
         console := console w @ [block_message f (stdout r)]\<rparr>)"
    by (simp add: check_body_listed [of run listing, OF assms(1)] assms(2))
  then show ?thesis by (rule check_staged_files_returned)
qed

section \<open>Example runs\<close>

text \<open>What the example collaborators answer, and what the two rules say of the contents.\<close>

lemma empty_index_lists_nothing:
  "empty_index git_diff_cached = Inr \<lparr>returncode = 0, stdout = [], stderr = []\<rparr>"
  "staged_files_of (stdout \<lparr>returncode = 0, stdout = [], stderr = []\<rparr>) = []"
  by (simp_all add: empty_index_def staged_files_of_def strip_def)

lemma ascii_console_refuses:
  "ascii_console written passed_message = Some (Exception (lit ''ordinal not in range(128)''))"
  "ascii_console written (error_message e) = Some (Exception (lit ''ordinal not in range(128)''))"
  "ascii_console written (api_key_message p) = Some (Exception (lit ''ordinal not in range(128)''))"
  "ascii_console written (password_message p) = Some (Exception (lit ''ordinal not in range(128)''))"
  by (simp_all add: ascii_console_def passed_message_def error_message_def api_key_message_def
      password_message_def)

lemma example_listings:
  "staged_files_of (stdout (listing_of [lit ''config.py''])) = [lit ''config.py'']"
  "staged_files_of (stdout (listing_of [lit ''a.py'', lit ''b.py'', lit ''c.py''])) =
     [lit ''a.py'', lit ''b.py'', lit ''c.py'']"
  "staged_files_of (stdout (listing_of [lit ''logo.png'', lit ''config.py''])) =
     [lit ''logo.png'', lit ''config.py'']"
  "staged_files_of (stdout (listing_of [lit ''app.py''])) = [lit ''app.py'']"
  by (simp_all add: listing_of_def staged_files_of_def strip_def isspace_def lit_def split_step
      del: split.simps(2))

lemma example_paths:
  "lit ''config.py'' \<noteq> []" "lit ''a.py'' \<noteq> []" "lit ''b.py'' \<noteq> []" "lit ''c.py'' \<noteq> []"
  "lit ''logo.png'' \<noteq> []" "lit ''app.py'' \<noteq> []"
  by (simp_all add: lit_def)

lemma config_content_has_key: "re_search False api_key_pattern config_content"
  unfolding api_key_search_iff config_content_def
  by (rule exI [of _ "lit ''API_KEY = '' @ [34]"], rule exI [of _ "lit ''abcdefghijklmnopqrstuvwxyz''"],
      rule exI [of _ "[34, 10]"]) (simp add: lit_def alphanumeric_def)

lemma config_content_sensitive:
  "sensitive config_content" "block_message p config_content = api_key_message p"
  by (simp_all add: sensitive_def block_message_def config_content_has_key)

lemma plain_content_not_sensitive: "\<not> sensitive plain_content"
  by (simp add: plain_content_def sensitive_def api_key_pattern_def password_pattern_def
      literals_def lit_def char_matches_def ascii_lower_def case_extras_def)

lemma config_repository_replies:
  "config_repository git_diff_cached =
Inr (listing_of [lit ''config.py''])"
  "config_repository (git_show (lit ''config.py'')) =
     Inr \<lparr>returncode = 0, stdout = config_content, stderr = []\<rparr>"
  by (simp_all add: config_repository_def git_show_not_listing)

lemma two_file_repository_replies:
  "two_file_repository git_diff_cached =
     Inr (listing_of [lit ''a.py'', lit ''b.py'', lit ''c.py''])"
  "two_file_repository (git_show (lit ''a.py'')) =
     Inr \<lparr>returncode = 0, stdout = plain_content, stderr = []\<rparr>"
  "two_file_repository (git_show (lit ''b.py'')) =
     Inr \<lparr>returncode = 0, stdout = config_content, stderr = []\<rparr>"
  "two_file_repository (git_show (lit ''c.py'')) =
     Inr \<lparr>returncode = 0, stdout = plain_content, stderr = []\<rparr>"
  by (simp_all add: two_file_repository_def git_show_not_listing git_show_inject lit_def)

lemma binary_repository_replies:
  "binary_repository git_diff_cached =
     Inr (listing_of [lit ''logo.png'', lit ''config.py''])"
  "binary_repository (git_show (lit ''logo.png'')) = Inl (Exception (lit ''invalid start byte''))"
  "binary_repository (git_show (lit ''config.py'')) =
     Inr \<lparr>returncode = 0, stdout = config_content, stderr = []\<rparr>"
  by (simp_all add: binary_repository_def config_repository_def git_show_not_listing
      git_show_inject lit_def)

lemma app_repository_replies:
  "app_repository content git_diff_cached =
     Inr (listing_of [lit ''app.py''])"
  "app_repository content (git_show (lit ''app.py'')) =
     Inr \<lparr>returncode = 0, stdout = content, stderr = []\<rparr>"
  by (simp_all add: app_repository_def git_show_not_listing)

section \<open>Properties of the audit\<close>

















text \<open>
  C7, as stated, fails on a standard output that cannot encode the success marker: with
  nothing staged the \<^verbatim>\<open>print\<close> of the marker raises \<^verbatim>\<open>UnicodeEncodeError\<close> inside
  the outer \<^verbatim>\<open>try\<close>, the \<^verbatim>\<open>print\<close> of the handler raises as well, and the exception
  leaves \<^verbatim>\<open>check_staged_files\<close>: nothing is printed, nothing is returned, and the
  process does not end through \<^verbatim>\<open>sys.exit(0)\<close>.
\<close>

theorem no_staged_files_counterexample:
  "empty_index git_diff_cached = Inr \<lparr>returncode = 0, stdout = [], stderr = []\<rparr> \<and>
   staged_files_of [] = [] \<and>
   check_staged_files empty_index ascii_console start =
     (Inl (Exception (lit ''ordinal not in range(128)'')),
      \<lparr>console = [], commands = [git_diff_cached]\<rparr>) \<and>
   main empty_index ascii_console start =
     (Uncaught (Exception (lit ''ordinal not in range(128)'')),
      \<lparr>console = [], commands = [git_diff_cached]\<rparr>)"
proof -
  have b: "check_body empty_index ascii_console start =
      (Inl (Exception (lit ''ordinal not in range(128)'')),
       \<lparr>console = [], commands = [git_diff_cached]\<rparr>)"
    by (simp add: check_body_no_files [of empty_index, OF empty_index_lists_nothing] print_raised
        ascii_console_refuses start_def)
  have c: "check_staged_files empty_index ascii_console start =
      (Inl (Exception (lit ''ordinal not in range(128)'')),
       \<lparr>console = [], commands = [git_diff_cached]\<rparr>)"
    by (rule check_staged_files_handler_raised [OF b]) (simp_all add: ascii_console_refuses)
  from c main_uncaught [OF c] empty_index_lists_nothing show ?thesis by simp
qed

text \<open>
  C7, amended. When the listing yields no staged file and standard output takes the
  success marker, \<^verbatim>\<open>check_staged_files\<close> prints the marker (and nothing else),
  returns \<^verbatim>\<open>True\<close>, and the process exits with 0.
\<close>

theorem no_staged_files_passes:
  assumes "run git_diff_cached = Inr listing" and "staged_files_of (stdout listing) = []"
    and "out (console w) passed_message = None"
  shows "check_staged_files run out w =
           (Inr True,
            w\<lparr>commands := commands w @ [git_diff_cached],
              console := console w @ [passed_message]\<rparr>) \<and>
         fst (main run out w) = Exit 0"
proof -
  have "check_body run out w =
      (Inr True,
       w\<lparr>commands := commands w @ [git_diff_cached], console := console w @ [passed_message]\<rparr>)"
    using assms(3) by (simp add: check_body_no_files [of run, OF assms(1,2)] print_written)
  then have "check_staged_files run out w =
      (Inr True,
       w\<lparr>commands := commands w @ [git_diff_cached], console := console w @ [passed_message]\<rparr>)"
    by (rule check_staged_files_returned)
  from this main_returned [OF this] show ?thesis by simp
qed

theorem no_staged_files_passes_witness:
  "check_staged_files empty_index utf8_console start =
     (Inr True, \<lparr>console = [passed_message], commands = [git_diff_cached]\<rparr>) \<and>
   fst (main empty_index utf8_console start) = Exit 0"
  using no_staged_files_passes [of empty_index _ utf8_console start, OF empty_index_lists_nothing]
  by (simp add: utf8_console_def start_def)

lemma check_staged_files_listing_raised:
  assumes "run git_diff_cached = Inl e" and "isinstance_Exception e"
    and "out (console w) (error_message e) = None"
  shows "check_staged_files run out w =
           (Inr True,
            w\<lparr>commands := commands w @ [git_diff_cached],
              console := console w @ [error_message e]\<rparr>)"
  using check_staged_files_handled [OF check_body_raised [of run e out w, OF assms(1)] assms(2)]
    assms(3)
  by simp





lemma scan_file_raises_only:
  assumes "\<forall>argv e. run argv = Inl e \<longrightarrow> isinstance_Exception e"
    and "\<forall>written line e. out written line = Some e \<longrightarrow> isinstance_Exception e"
    and "scan_file run out f w = (Inl e, w1)"
  shows "isinstance_Exception e"
proof (cases "run (git_show f)")
  case (Inl e')
  with assms(3) have "e = e'" by (simp add: scan_file_raised)
  with Inl assms(1) show ?thesis by simp
next
  case (Inr r)
  show ?thesis
  proof (cases "sensitive (stdout r)")
    case False
    with Inr assms(3) show ?thesis by (simp add: scan_file_not_sensitive)
  next
    case True
    with Inr assms(3)
    have "out (console (w\<lparr>commands := commands w @ [git_show f]\<rparr>))
        (block_message f (stdout r)) = Some e"
      by (auto simp: scan_file_sensitive print_def split: option.splits)
    with assms(2) show ?thesis by blast
  qed
qed

lemma scan_files_returns:
  assumes "\<forall>argv e. run argv = Inl e \<longrightarrow> isinstance_Exception e"
    and "\<forall>written line e. out written line = Some e \<longrightarrow> isinstance_Exception e"
  shows "\<exists>v w'. scan_files run out fs w = (Inr v, w')"
proof (induction fs arbitrary: w)
  case Nil
  show ?case by simp
next
  case (Cons f fs)
  show ?case
  proof (cases "f = []")
    case True
    with Cons.IH [of w] show ?thesis by simp
  next
    case False
    obtain r w1 where a: "scan_file run out f w = (r, w1)" by (cases "scan_file run out f w")
    note step = scan_files_step [OF False a, of fs]
    show ?thesis
    proof (cases r)
      case (Inl e)
      with a have "isinstance_Exception e"
        using scan_file_raises_only [OF assms, of f w e w1] by simp
      with Inl step Cons.IH [of w1] show ?thesis by simp
    next
      case (Inr v)
      with step Cons.IH [of w1] show ?thesis by (cases v) simp_all
    qed
  qed
qed

lemma check_body_raises_only:
  assumes "\<forall>argv e. run argv = Inl e \<longrightarrow> isinstance_Exception e"
    and "\<forall>written line e. out written line = Some e \<longrightarrow> isinstance_Exception e"
    and "check_body run out w = (Inl e, w1)"
  shows "isinstance_Exception e"
proof (cases "run git_diff_cached")
  case (Inl e')
  with assms(3) have "e = e'" by (simp add: check_body_raised)
  with Inl assms(1) show ?thesis by simp
next
  case (Inr listing)
  let ?w = "w\<lparr>commands := commands w @ [git_diff_cached]\<rparr>"
  from scan_files_returns [OF assms(1,2), of "staged_files_of (stdout listing)" ?w]
  obtain v w2 where s: "scan_files run out (staged_files_of (stdout listing)) ?w = (Inr v, w2)"
    by blast
  from assms(3) have "out (console w2) passed_message = Some e"
    unfolding check_body_listed [of run listing, OF Inr] s
    by (cases v) (auto simp: print_def split: option.splits)
  with assms(2) show ?thesis by blast
qed

text \<open>
  C6, as stated, fails. Both handlers are \<^verbatim>\<open>except Exception\<close>: when the user
  interrupts the listing, the \<^verbatim>\<open>KeyboardInterrupt\<close> leaves \<^verbatim>\<open>check_staged_files\<close> and
  the entry point. And the outer handler prints before it returns: when \<^verbatim>\<open>git\<close> cannot
  be started and standard output cannot encode the warning line, the
  \<^verbatim>\<open>UnicodeEncodeError\<close> of that \<^verbatim>\<open>print\<close> leaves the handler. Neither run ends through
  \<^verbatim>\<open>sys.exit\<close>.
\<close>

theorem every_run_exits_counterexample:
  "main interrupted_listing utf8_console start =
     (Uncaught KeyboardInterrupt, \<lparr>console = [], commands = [git_diff_cached]\<rparr>) \<and>
   main git_missing ascii_console start =
     (Uncaught (Exception (lit ''ordinal not in range(128)'')),
      \<lparr>console = [], commands = [git_diff_cached]\<rparr>)"
proof -
  have "interrupted_listing git_diff_cached = Inl KeyboardInterrupt"
    by (simp add: interrupted_listing_def)
  from check_body_raised [of interrupted_listing, OF this, of utf8_console start]
  have "check_staged_files interrupted_listing utf8_console start =
      (Inl KeyboardInterrupt, \<lparr>console = [], commands = [git_diff_cached]\<rparr>)"
    by (simp add: check_staged_files_def start_def)
  note 1 = main_uncaught [OF this]
  have "git_missing git_diff_cached = Inl (Exception (lit ''No such file or directory''))"
    by (simp add: git_missing_def)
  from check_body_raised [of git_missing, OF this, of ascii_console start]
  have "check_staged_files git_missing ascii_console start =
      (Inl (Exception (lit ''ordinal not in range(128)'')),
       \<lparr>console = [], commands = [git_diff_cached]\<rparr>)"
    by (simp add: check_staged_files_def start_def print_raised ascii_console_refuses)
  note 2 = main_uncaught [OF this]
  from 1 2 show ?thesis by simp
qed

text \<open>
  C6, amended. When nothing that is raised is outside \<^verbatim>\<open>Exception\<close> (no
  \<^verbatim>\<open>KeyboardInterrupt\<close> or \<^verbatim>\<open>SystemExit\<close> during a \<^verbatim>\<open>git\<close> call or a write) and
  standard output takes every warning line, no exception leaves
  \<^verbatim>\<open>check_staged_files\<close>, whatever the collaborator raises and whichever other line
  standard output refuses: it returns a verdict, and the process exits with 0 when the
  verdict is \<^verbatim>\<open>True\<close> and with 1 when it is \<^verbatim>\<open>False\<close>.
\<close>

theorem every_run_exits:
  assumes "\<forall>argv e. run argv = Inl e \<longrightarrow> isinstance_Exception e"
    and "\<forall>written line e. out written line = Some e \<longrightarrow> isinstance_Exception e"
    and "\<forall>written line. is_warning line \<longrightarrow> out written line = None"
  shows "\<exists>ok w'. check_staged_files run out w = (Inr ok, w') \<and>
           main run out w = (Exit (if ok then 0 else 1), w')"
proof -
  obtain r w1 where b: "check_body run out w = (r, w1)" by (cases "check_body run out w")
  have "\<exists>ok w'. check_staged_files run out w = (Inr ok, w')"
  proof (cases r)
    case (Inr v)
    with b show ?thesis by (simp add: check_staged_files_returned)
  next
    case (Inl e)
    with b assms(1,2) have e: "isinstance_Exception e"
      using check_body_raises_only [of run out w e w1] by simp
    from assms(3) have "out (console w1) (error_message e) = None"
      by (simp add: is_warning_error_message)
    from check_staged_files_handled [OF b [unfolded Inl] e this] show ?thesis by blast
  qed
  then obtain ok w' where c: "check_staged_files run out w = (Inr ok, w')" by blast
  from c main_returned [OF c] show ?thesis by blast
qed

theorem every_run_exits_witness:
  "main git_missing utf8_console start =
     (Exit 0,
      \<lparr>console = [error_message (Exception (lit ''No such file or directory''))],
       commands = [git_diff_cached]\<rparr>) \<and>
   main binary_repository (refusing 10060) start =
     (Exit 0,
      \<lparr>console = [passed_message],
       commands = [git_diff_cached, git_show (lit ''logo.png''), git_show (lit ''config.py'')]\<rparr>) \<and>
   main config_repository utf8_console start =
     (Exit 1,
      \<lparr>console = [api_key_message (lit ''config.py'')],
       commands = [git_diff_cached, git_show (lit ''config.py'')]\<rparr>)"
proof -
  have w: "\<And>written line. is_warning line \<Longrightarrow> take 1 line \<noteq> [10060]"
  proof -
    fix written :: "str list" and line :: str
    assume "is_warning line"
    then have "take 1 (take (length (error_message (Exception []))) line) = [9888]"
      by (simp add: is_warning_def error_message_def)
    then have "take 1 line = [9888]" by (simp add: error_message_def min_def)
    then show "take 1 line \<noteq> [10060]" by simp
  qed
  have u: "\<forall>written line e. utf8_console written line = Some e \<longrightarrow> isinstance_Exception e"
    "\<forall>written line. is_warning line \<longrightarrow> utf8_console written line = None"
    by (simp_all add: utf8_console_def)
  have r: "\<forall>written line e. refusing 10060 written line = Some e \<longrightarrow> isinstance_Exception e"
    "\<forall>written line. is_warning line \<longrightarrow> refusing 10060 written line = None"
    using w by (auto simp: refusing_def split: if_splits)
  have g: "\<forall>argv e. git_missing argv = Inl e \<longrightarrow> isinstance_Exception e"
    by (auto simp: git_missing_def)
  have c: "\<forall>argv e. config_repository argv = Inl e \<longrightarrow> isinstance_Exception e"
    by (auto simp: config_repository_def split: if_splits)
  then have b: "\<forall>argv e. binary_repository argv = Inl e \<longrightarrow> isinstance_Exception e"
    by (auto simp: binary_repository_def split: if_splits)
  note t1 = every_run_exits [OF g u, of start]
  note t2 = every_run_exits [OF b r, of start]
  note t3 = every_run_exits [OF c u, of start]
  have "git_missing git_diff_cached = Inl (Exception (lit ''No such file or directory''))"
    by (simp add: git_missing_def)
  from check_staged_files_listing_raised [of git_missing, OF this, of utf8_console start]
  have "check_staged_files git_missing utf8_console start =
      (Inr True,
       \<lparr>console = [error_message (Exception (lit ''No such file or directory''))],
        commands = [git_diff_cached]\<rparr>)"
    by (simp add: utf8_console_def start_def)
  note 1 = main_returned [OF this]
  have "list_all (passed_over binary_repository (refusing 10060) (console start))
      (staged_files_of (stdout (listing_of [lit ''logo.png'', lit ''config.py''])))"
    by (simp add: example_listings passed_over_def binary_repository_replies
        config_content_sensitive refusing_def api_key_message_def)
  from check_staged_files_passed [of binary_repository, OF binary_repository_replies(1) this]
  have "check_staged_files binary_repository (refusing 10060) start =
      (Inr True,
       \<lparr>console = [passed_message],
        commands = [git_diff_cached, git_show (lit ''logo.png''), git_show (lit ''config.py'')]\<rparr>)"
    by (simp add: example_listings refusing_def passed_message_def start_def fetches_def
        example_paths)
  note 2 = main_returned [OF this]
  have "staged_files_of (stdout (listing_of [lit ''config.py''])) = [] @ lit ''config.py'' # []"
    by (simp add: example_listings)
  from check_staged_files_first_sensitive [of config_repository, OF config_repository_replies(1)
      this _ example_paths(1) config_repository_replies(2), of utf8_console start]
  have "check_staged_files config_repository utf8_console start =
      (Inr False,
       \<lparr>console = [api_key_message (lit ''config.py'')],
        commands = [git_diff_cached, git_show (lit ''config.py'')]\<rparr>)"
    by (simp add: config_content_sensitive utf8_console_def start_def fetches_def)
  note 3 = main_returned [OF this]
  from t1 t2 t3 1 2 3 show ?thesis by simp
qed

text \<open>
  C8, as stated, fails: the class \<^verbatim>\<open>[^'"]\<close> of the quoted string matches a newline, so
  a match may span two lines none of which matches by itself.
\<close>

theorem single_line_counterexample:
  "re_search True password_pattern multiline_secret \<and>
   \<not> list_ex (re_search True password_pattern) (split 10 multiline_secret)"
proof -
  have s: "split 10 multiline_secret =
      [lit ''password = '' @ [34] @ lit ''abc'', lit ''defgh'' @ [34]]"
    by (simp add: multiline_secret_def lit_def split_step del: split.simps(2))
  have 1: "re_search True password_pattern multiline_secret"
    unfolding multiline_secret_def by code_simp
  have 2: "\<not> re_search True password_pattern (lit ''password = '' @ [34] @ lit ''abc'')"
    by code_simp
  have 3: "\<not> re_search True password_pattern (lit ''defgh'' @ [34])"
    by code_simp
  from 1 2 3 show ?thesis by (simp add: s)
qed

text \<open>
  C8, amended. Rule B matches a content exactly when it matches one of its lines or
  the content has a match whose quoted string holds a newline: \<^verbatim>\<open>password\<close>, the
  \<^verbatim>\<open>=\<close> and the opening quote always lie on one line, and only the quoted string
  may run over a line end.
\<close>

theorem password_match_lines:
  "re_search True password_pattern s \<longleftrightarrow>
     list_ex (re_search True password_pattern) (split 10 s) \<or>
     (\<exists>pre pw a b q1 body q2 post.
        s = pre @ pw @ a @ [61] @ b @ [q1] @ body @ [q2] @ post \<and>
        ignorecase_equal (lit ''password'') pw \<and> 10 \<notin> set a \<and> 10 \<notin> set b \<and>
        quote q1 \<and> list_all (\<lambda>c. \<not> quote c) body \<and> 8 \<le> length body \<and> quote q2 \<and>
        10 \<in> set body)"
  (is "?L = (?lines \<or> ?spanning)")
proof
  assume ?L
  then obtain pre pw a b q1 body q2 post where
    s: "s = pre @ pw @ a @ [61] @ b @ [q1] @ body @ [q2] @ post"
    and m: "ignorecase_equal (lit ''password'') pw" "10 \<notin> set a" "10 \<notin> set b"
      "quote q1" "list_all (\<lambda>c. \<not> quote c) body" "8 \<le> length body" "quote q2"
    unfolding password_search_iff by blast
  show "?lines \<or> ?spanning"
  proof (cases "10 \<in> set body")
    case True
    with s m show ?thesis by blast
  next
    case False
    let ?m = "pw @ a @ [61] @ b @ [q1] @ body @ [q2]"
    have "10 \<notin> set ?m"
      using False m(2,3,4,7) password_word(1) [OF m(1)] by (auto simp: quote_def)
    from split_keeps_segment [OF this, of pre post] obtain l u v where
      l: "l \<in> set (split 10 (pre @ ?m @ post))" "l = u @ ?m @ v" by blast
    have "l = u @ pw @ a @ [61] @ b @ [q1] @ body @ [q2] @ v"
      using l(2) by simp
    with m have "re_search True password_pattern l"
      unfolding password_search_iff by blast
    moreover have "l \<in> set (split 10 s)" using l(1) s by simp
    ultimately show ?thesis by (auto simp: list_ex_iff)
  qed
next
  assume "?lines \<or> ?spanning"
  then show ?L
  proof
    assume ?lines
    then obtain l where l: "l \<in> set (split 10 s)" "re_search True password_pattern l"
      by (auto simp: list_ex_iff)
    from split_field_is_substring [OF l(1)] obtain u v where "s = u @ l @ v" by blast
    with re_search_substring [OF l(2)] show ?L by simp
  next
    assume ?spanning
    then show ?L unfolding password_search_iff by blast
  qed
qed

theorem password_match_lines_witness:
  "re_search True password_pattern multiline_secret \<and>
   re_search True password_pattern (lit ''x = 1'' @ [10] @ lit ''password = '' @ [34] @
     lit ''longer18'' @ [34])"
proof -
  have "multiline_secret =
      [] @ lit ''password'' @ lit '' '' @ [61] @ lit '' '' @ [34] @
        (lit ''abc'' @ [10] @ lit ''defgh'') @ [34] @ []"
    by (simp add: multiline_secret_def lit_def)
  moreover have "ignorecase_equal (lit ''password'') (lit ''password'')"
    by (simp add: ignorecase_equal_def lit_def char_matches_def ascii_lower_def)
  moreover have "10 \<notin> set (lit '' '')" "quote 34"
    "list_all (\<lambda>c. \<not> quote c) (lit ''abc'' @ [10] @ lit ''defgh'')"
    "8 \<le> length (lit ''abc'' @ [10] @ lit ''defgh'')"
    "10 \<in> set (lit ''abc'' @ [10] @ lit ''defgh'')"
    by (simp_all add: lit_def quote_def)
  ultimately have "\<exists>pre pw a b q1 body q2 post.
        multiline_secret = pre @ pw @ a @ [61] @ b @ [q1] @ body @ [q2] @ post \<and>
        ignorecase_equal (lit ''password'') pw \<and> 10 \<notin> set a \<and> 10 \<notin> set b \<and>
        quote q1 \<and> list_all (\<lambda>c. \<not> quote c) body \<and> 8 \<le> length body \<and> quote q2 \<and>
        10 \<in> set body"
    by blast
  then have 1: "re_search True password_pattern multiline_secret"
    using password_match_lines [of multiline_secret] by blast
  let ?t = "lit ''x = 1'' @ [10] @ lit ''password = '' @ [34] @ lit ''longer18'' @ [34]"
  have "split 10 ?t = [lit ''x = 1'', lit ''password = '' @ [34] @ lit ''longer18'' @ [34]]"
    by (simp add: lit_def split_step del: split.simps(2))
  moreover have "re_search True password_pattern
      (lit ''password = '' @ [34] @ lit ''longer18'' @ [34])"
    by code_simp
  ultimately have "list_ex (re_search True password_pattern) (split 10 ?t)" by simp
  then have 2: "re_search True password_pattern ?t"
    using password_match_lines [of ?t] by blast
  from 1 2 show ?thesis by simp
qed

lemma two_short_strings_match:
  "re_search True password_pattern two_short_strings"
  "\<not> re_search False api_key_pattern two_short_strings"
  unfolding two_short_strings_def by code_simp+

text \<open>
  C2, as stated, fails for a line with a second quoted string: in
  \<^verbatim>\<open>password = "abc"; user = "bob"\<close> the quoted string after \<^verbatim>\<open>password =\<close> has 3
  characters, and Rule B matches, taking the 9 characters between the closing quote of
  the first string and the opening quote of the second for a quoted string; the audit
  blocks.
\<close>

theorem password_boundary_counterexample:
  "re_search True password_pattern two_short_strings \<and>
   check_staged_files (app_repository two_short_strings) utf8_console start =
     (Inr False,
      \<lparr>console = [password_message (lit ''app.py'')],
       commands = [git_diff_cached, git_show (lit ''app.py'')]\<rparr>) \<and>
   main (app_repository two_short_strings) utf8_console start =
     (Exit 1,
      \<lparr>console = [password_message (lit ''app.py'')],
       commands = [git_diff_cached, git_show (lit ''app.py'')]\<rparr>)"
proof -
  have "staged_files_of (stdout (listing_of [lit ''app.py''])) = [] @ lit ''app.py'' # []"
    by (simp add: example_listings)
  from check_staged_files_first_sensitive [of "app_repository two_short_strings",
      OF app_repository_replies(1) this _ example_paths(6) app_repository_replies(2),
      of utf8_console start]
  have c: "check_staged_files (app_repository two_short_strings) utf8_console start =
      (Inr False,
       \<lparr>console = [password_message (lit ''app.py'')],
        commands = [git_diff_cached, git_show (lit ''app.py'')]\<rparr>)"
    by (simp add: sensitive_def block_message_def two_short_strings_match utf8_console_def
        start_def fetches_def)
  from c main_returned [OF c] two_short_strings_match(1) show ?thesis by simp
qed

text \<open>
  C2, amended. Take a content with \<^verbatim>\<open>password\<close> (in any case), later on the line
  \<^verbatim>\<open>=\<close>, later on the line a quote, a string without quotes and a closing quote. When
  the string has 8 or more characters Rule B matches, and the audit blocks provided
  standard output takes its lines and no fetch is interrupted. When the string has 7 or
  fewer characters and its two quotes are the only quote characters of the content,
  Rule B does not match, and a staged list of this one file, with no API key in it,
  passes when standard output takes the success marker.
\<close>

theorem password_boundary:
  assumes "run git_diff_cached = Inr listing"
    and "file_path \<in> set (staged_files_of (stdout listing))" and "file_path \<noteq> []"
    and "run (git_show file_path) = Inr result"
    and "stdout result = pre @ pw @ a @ [61] @ b @ [q1] @ body @ [q2] @ post"
    and "ignorecase_equal (lit ''password'') pw" and "10 \<notin> set a" and "10 \<notin> set b"
    and "quote q1" and "quote q2" and "list_all (\<lambda>c. \<not> quote c) body"
  shows "(8 \<le> length body \<longrightarrow>
            re_search True password_pattern (stdout result) \<and>
            ((\<forall>written line. out written line = None) \<longrightarrow>
             (\<forall>p e. run (git_show p) = Inl e \<longrightarrow> isinstance_Exception e) \<longrightarrow>
               fst (check_staged_files run out w) = Inr False \<and>
               fst (main run out w) = Exit 1)) \<and>
         (length body \<le> 7 \<longrightarrow> list_all (\<lambda>c. \<not> quote c) (pre @ a @ b @ post) \<longrightarrow>
            \<not> re_search True password_pattern (stdout result) \<and>
            (\<not> re_search False api_key_pattern (stdout result) \<longrightarrow>
             staged_files_of (stdout listing) = [file_path] \<longrightarrow>
             out (console w) passed_message = None \<longrightarrow>
               fst (check_staged_files run out w) = Inr True \<and>
               fst (main run out w) = Exit 0))"
proof (intro conjI impI)
  assume len: "8 \<le> length body"
  with assms(5-11) show m: "re_search True password_pattern (stdout result)"
    unfolding password_search_iff by blast
  assume ok: "\<forall>written line. out written line = None"
    "\<forall>p e. run (git_show p) = Inl e \<longrightarrow> isinstance_Exception e"
  from m have "sensitive (stdout result)" by (simp add: sensitive_def)
  with ok assms(2-4) have "fst (scan_files run out (staged_files_of (stdout listing))
      (w\<lparr>commands := commands w @ [git_diff_cached]\<rparr>)) = Inr (Some False)"
    by (rule scan_files_blocks)
  with assms(1) show "fst (check_staged_files run out w) = Inr False"
    "fst (main run out w) = Exit 1"
    by (simp_all add: check_blocked)
next
  assume len: "length body \<le> 7"
    and nq: "list_all (\<lambda>c. \<not> quote c) (pre @ a @ b @ post)"
  show no: "\<not> re_search True password_pattern (stdout result)"
  proof
    assume "re_search True password_pattern (stdout result)"
    then obtain pre' pw' a' b' q1' body' q2' post' where
      s: "stdout result = pre' @ pw' @ a' @ [61] @ b' @ [q1'] @ body' @ [q2'] @ post'"
      and m: "quote q1'" "list_all (\<lambda>c. \<not> quote c) body'" "8 \<le> length body'" "quote q2'"
      unfolding password_search_iff by blast
    have x: "list_all (\<lambda>c. \<not> quote c) (pre @ pw @ a @ [61] @ b)"
      using nq password_word(2) [OF assms(6)] by (simp add: quote_def)
    have p: "list_all (\<lambda>c. \<not> quote c) post" using nq by simp
    have "(pre @ pw @ a @ [61] @ b) @ q1 # body @ q2 # post =
        (pre' @ pw' @ a' @ [61] @ b') @ q1' # body' @ q2' # post'"
      using assms(5) s by simp
    from two_quotes_unique [OF this x assms(11) p assms(9,10) m(1,4,2)]
    have "body' = body" .
    with m(3) len show False by simp
  qed
  assume api: "\<not> re_search False api_key_pattern (stdout result)"
    and one: "staged_files_of (stdout listing) = [file_path]"
    and marker: "out (console w) passed_message = None"
  from no api have "\<not> sensitive (stdout result)" by (simp add: sensitive_def)
  with assms(4) have "clean run file_path" by (simp add: clean_def)
  then have "list_all (passed_over run out (console w)) (staged_files_of (stdout listing))"
    unfolding one by (simp add: clean_passed_over)
  from check_staged_files_passed [of run listing, OF assms(1) this marker]
  show c: "fst (check_staged_files run out w) = Inr True" by simp
  then show "fst (main run out w) = Exit 0"
    by (auto simp: main_def split: prod.splits sum.splits)
qed

theorem password_boundary_witness:
  "fst (check_staged_files (app_repository short_password) utf8_console start) = Inr True \<and>
   fst (main (app_repository short_password) utf8_console start) = Exit 0 \<and>
   \<not> re_search True password_pattern short_password \<and>
   fst (check_staged_files (app_repository long_password) utf8_console start) = Inr False \<and>
   fst (main (app_repository long_password) utf8_console start) = Exit 1 \<and>
   re_search True password_pattern long_password"
proof -
  have listed: "lit ''app.py'' \<in> set (staged_files_of (stdout (listing_of [lit ''app.py''])))"
    by (simp add: example_listings)
  have pw: "ignorecase_equal (lit ''password'') (lit ''password'')"
    by (simp add: ignorecase_equal_def lit_def char_matches_def ascii_lower_def)
  have sp: "10 \<notin> set (lit '' '')" by (simp add: lit_def)
  have q: "quote 34" by (simp add: quote_def)
  have u: "\<And>written line. utf8_console written line = None"
    "utf8_console (console start) passed_message = None"
    by (simp_all add: utf8_console_def)
  have s3: "stdout \<lparr>returncode = 0, stdout = short_password, stderr = []\<rparr> =
      [] @ lit ''password'' @ lit '' '' @ [61] @ lit '' '' @ [34] @ lit ''short17'' @ [34] @ [10]"
    by (simp add: short_password_def lit_def)
  have s4: "list_all (\<lambda>c. \<not> quote c) (lit ''short17'')" by (simp add: lit_def quote_def)
  have s5: "length (lit ''short17'') \<le> 7" by (simp add: lit_def)
  have s6: "list_all (\<lambda>c. \<not> quote c) ([] @ lit '' '' @ lit '' '' @ [10])"
    by (simp add: lit_def quote_def)
  have "\<not> re_search False api_key_pattern short_password"
    unfolding short_password_def by code_simp
  then have s8: "\<not> re_search False api_key_pattern
      (stdout \<lparr>returncode = 0, stdout = short_password, stderr = []\<rparr>)"
    by simp
  note short = password_boundary [of "app_repository short_password", OF
      app_repository_replies(1) listed example_paths(6) app_repository_replies(2) s3 pw sp sp q q
      s4, of utf8_console start, THEN conjunct2, rule_format, OF s5 s6]
  note short_run = short [THEN conjunct2, rule_format, OF s8 example_listings(4) u(2)]
  have l3: "stdout \<lparr>returncode = 0, stdout = long_password, stderr = []\<rparr> =
      [] @ lit ''password'' @ lit '' '' @ [61] @ lit '' '' @ [34] @ lit ''longer18'' @ [34] @ [10]"
    by (simp add: long_password_def lit_def)
  have l4: "list_all (\<lambda>c. \<not> quote c) (lit ''longer18'')" by (simp add: lit_def quote_def)
  have l5: "8 \<le> length (lit ''longer18'')" by (simp add: lit_def)
  have l6: "\<And>p e. app_repository long_password (git_show p) = Inl e \<Longrightarrow>
      isinstance_Exception e"
    by (auto simp: app_repository_def split: if_splits)
  note long = password_boundary [of "app_repository long_password", OF
      app_repository_replies(1) listed example_paths(6) app_repository_replies(2) l3 pw sp sp q q
      l4, of utf8_console start, THEN conjunct1, rule_format, OF l5]
  note long_run = long [THEN conjunct2, rule_format, OF u(1) l6]
  from short [THEN conjunct1] short_run long [THEN conjunct1] long_run show ?thesis by simp
qed

lemma api_key_blocks:
  assumes "run git_diff_cached = Inr listing"
    and "file_path \<in> set (staged_files_of (stdout listing))" and "file_path \<noteq> []"
    and "run (git_show file_path) = Inr result"
    and "stdout result = pre @ lit ''sk-'' @ body @ post"
    and "20 \<le> length body" and "list_all alphanumeric body"
    and "\<forall>written line. out written line = None"
    and "\<forall>p e. run (git_show p) = Inl e \<longrightarrow> isinstance_Exception e"
  shows "fst (check_staged_files run out w) = Inr False \<and> fst (main run out w) = Exit 1"
proof -
  have "re_search False api_key_pattern (stdout result)"
    unfolding api_key_search_iff using assms(5-7) by blast
  then have "sensitive (stdout result)" by (simp add: sensitive_def)
  with assms(8,9,2-4) have "fst (scan_files run out (staged_files_of (stdout listing))
      (w\<lparr>commands := commands w @ [git_diff_cached]\<rparr>)) = Inr (Some False)"
    by (rule scan_files_blocks)
  with assms(1) show ?thesis by (simp add: check_blocked)
qed

lemma ascii_console_nothing_written:
  assumes "run git_diff_cached = Inr listing"
    and "list_all (passed_over run ascii_console (console w)) (staged_files_of (stdout listing))"
  shows "check_staged_files run ascii_console w =
           (Inl (Exception (lit ''ordinal not in range(128)'')),
            w\<lparr>commands := commands w @ [git_diff_cached] @
                 fetches (staged_files_of (stdout listing))\<rparr>)"
  using check_staged_files_nothing_written [where run = run and out = ascii_console and w = w
      and e = "Exception (lit ''ordinal not in range(128)'')"
      and e' = "Exception (lit ''ordinal not in range(128)'')", OF assms]
  by (simp add: ascii_console_refuses)

text \<open>
  C1 does not hold of the code. The \<^verbatim>\<open>print\<close> of the block line stands inside the
  inner \<^verbatim>\<open>try\<close>, before \<^verbatim>\<open>return False\<close>. With \<^verbatim>\<open>config.py\<close> staged, holding an
  API key, and a standard output whose encoding is ASCII, that \<^verbatim>\<open>print\<close> raises
  \<^verbatim>\<open>UnicodeEncodeError\<close>, the inner handler takes the file for one that cannot be
  read and goes on, and \<^verbatim>\<open>check_staged_files\<close> never returns \<^verbatim>\<open>False\<close>: the writes of
  the success marker and of the warning raise as well, and the exception leaves the
  function. On a standard output that takes every line the same repository is blocked;
  on one that refuses only the lines that start with the cross mark the audit passes,
  with the success marker and exit code 0.
\<close>

theorem api_key_not_blocked_on_ascii_console:
  "re_search False api_key_pattern config_content \<and>
   check_staged_files config_repository ascii_console start =
     (Inl (Exception (lit ''ordinal not in range(128)'')),
      \<lparr>console = [], commands = [git_diff_cached, git_show (lit ''config.py'')]\<rparr>) \<and>
   main config_repository ascii_console start =
     (Uncaught (Exception (lit ''ordinal not in range(128)'')),
      \<lparr>console = [], commands = [git_diff_cached, git_show (lit ''config.py'')]\<rparr>) \<and>
   main config_repository utf8_console start =
     (Exit 1,
      \<lparr>console = [api_key_message (lit ''config.py'')],
       commands = [git_diff_cached, git_show (lit ''config.py'')]\<rparr>) \<and>
   main config_repository (refusing 10060) start =
     (Exit 0,
      \<lparr>console = [passed_message],
       commands = [git_diff_cached, git_show (lit ''config.py'')]\<rparr>)"
proof -
  have "list_all (passed_over config_repository ascii_console (console start))
      (staged_files_of (stdout (listing_of [lit ''config.py''])))"
    by (simp add: example_listings passed_over_def config_repository_replies
        config_content_sensitive ascii_console_refuses)
  from ascii_console_nothing_written [of config_repository, OF config_repository_replies(1) this]
  have a: "check_staged_files config_repository ascii_console start =
      (Inl (Exception (lit ''ordinal not in range(128)'')),
       \<lparr>console = [], commands = [git_diff_cached, git_show (lit ''config.py'')]\<rparr>)"
    by (simp add: example_listings start_def fetches_def example_paths)
  have "staged_files_of (stdout (listing_of [lit ''config.py''])) = [] @ lit ''config.py'' # []"
    by (simp add: example_listings)
  from check_staged_files_first_sensitive [of config_repository, OF config_repository_replies(1)
      this _ example_paths(1) config_repository_replies(2), of utf8_console start]
  have u: "check_staged_files config_repository utf8_console start =
      (Inr False,
       \<lparr>console = [api_key_message (lit ''config.py'')],
        commands = [git_diff_cached, git_show (lit ''config.py'')]\<rparr>)"
    by (simp add: config_content_sensitive utf8_console_def start_def fetches_def)
  have "list_all (passed_over config_repository (refusing 10060) (console start))
      (staged_files_of (stdout (listing_of [lit ''config.py''])))"
    by (simp add: example_listings passed_over_def config_repository_replies
        config_content_sensitive refusing_def api_key_message_def)
  from check_staged_files_passed [of config_repository, OF config_repository_replies(1) this]
  have r: "check_staged_files config_repository (refusing 10060) start =
      (Inr True,
       \<lparr>console = [passed_message],
        commands = [git_diff_cached, git_show (lit ''config.py'')]\<rparr>)"
    by (simp add: example_listings refusing_def passed_message_def start_def fetches_def
        example_paths)
  from config_content_has_key a main_uncaught [OF a] main_returned [OF u] main_returned [OF r]
  show ?thesis by simp
qed

lemma first_match_short_circuits:
  assumes "run git_diff_cached = Inr listing"
    and "staged_files_of (stdout listing) = pre @ file_path # post"
    and "list_all (clean run) pre" and "file_path \<noteq> []"
    and "run (git_show file_path) = Inr result" and "sensitive (stdout result)"
    and "out (console w) (block_message file_path (stdout result)) = None"
  shows "check_staged_files run out w =
           (Inr False,
            w\<lparr>commands := commands w @ [git_diff_cached] @ fetches pre @ [git_show file_path],
              console := console w @
                [if re_search False api_key_pattern (stdout result)
                 then api_key_message file_path else password_message file_path]\<rparr>)"
  using check_staged_files_first_sensitive [where run = run and out = out and w = w, OF assms]
  by (simp add: block_message_def)

text \<open>
  C4 does not hold of the code, for the reason C1 does not: the \<^verbatim>\<open>print\<close> of the block
  line stands inside the inner \<^verbatim>\<open>try\<close>. With three staged files, the second holding an
  API key, and a standard output whose encoding is ASCII, the match in \<^verbatim>\<open>b.py\<close> does
  not end the loop: the \<^verbatim>\<open>UnicodeEncodeError\<close> of the \<^verbatim>\<open>print\<close> is caught by the inner
  handler, \<^verbatim>\<open>c.py\<close> is fetched and scanned, no block line is printed and no verdict is
  returned. On a standard output that takes every line the loop ends at \<^verbatim>\<open>b.py\<close>:
  \<^verbatim>\<open>c.py\<close> is not fetched and the one line printed names \<^verbatim>\<open>b.py\<close>.
\<close>

theorem first_match_not_short_circuited_on_ascii_console:
  "check_staged_files two_file_repository ascii_console start =
     (Inl (Exception (lit ''ordinal not in range(128)'')),
      \<lparr>console = [],
       commands = [git_diff_cached, git_show (lit ''a.py''), git_show (lit ''b.py''),
         git_show (lit ''c.py'')]\<rparr>) \<and>
   main two_file_repository ascii_console start =
     (Uncaught (Exception (lit ''ordinal not in range(128)'')),
      \<lparr>console = [],
       commands = [git_diff_cached, git_show (lit ''a.py''), git_show (lit ''b.py''),
         git_show (lit ''c.py'')]\<rparr>) \<and>
   check_staged_files two_file_repository utf8_console start =
     (Inr False,
      \<lparr>console = [api_key_message (lit ''b.py'')],
       commands = [git_diff_cached, git_show (lit ''a.py''), git_show (lit ''b.py'')]\<rparr>)"
proof -
  have "list_all (passed_over two_file_repository ascii_console (console start))
      (staged_files_of (stdout (listing_of [lit ''a.py'', lit ''b.py'', lit ''c.py''])))"
    by (simp add: example_listings passed_over_def two_file_repository_replies
        config_content_sensitive plain_content_not_sensitive ascii_console_refuses)
  from ascii_console_nothing_written [of two_file_repository,
      OF two_file_repository_replies(1) this]
  have a: "check_staged_files two_file_repository ascii_console start =
      (Inl (Exception (lit ''ordinal not in range(128)'')),
       \<lparr>console = [],
        commands = [git_diff_cached, git_show (lit ''a.py''), git_show (lit ''b.py''),
          git_show (lit ''c.py'')]\<rparr>)"
    by (simp add: example_listings start_def fetches_def example_paths)
  have l: "staged_files_of (stdout (listing_of [lit ''a.py'', lit ''b.py'', lit ''c.py''])) =
      [lit ''a.py''] @ lit ''b.py'' # [lit ''c.py'']"
    by (simp add: example_listings)
  have c: "list_all (clean two_file_repository) [lit ''a.py'']"
    by (simp add: clean_def two_file_repository_replies plain_content_not_sensitive)
  from first_match_short_circuits [of two_file_repository, OF two_file_repository_replies(1)
      l c example_paths(3) two_file_repository_replies(3), of utf8_console start]
  have u: "check_staged_files two_file_repository utf8_console start =
      (Inr False,
       \<lparr>console = [api_key_message (lit ''b.py'')],
        commands = [git_diff_cached, git_show (lit ''a.py''), git_show (lit ''b.py'')]\<rparr>)"
    by (simp add: config_content_sensitive config_content_has_key utf8_console_def start_def
        fetches_def example_paths)
  from a main_uncaught [OF a] u show ?thesis by simp
qed




end
